theory Spec2Isabelle
  imports Main
begin

section \<open>JavaScript values and the object store\<close>

text \<open>
  The front end keeps its configuration as plain JavaScript objects decoded from the
  backend's replies. \<open>settings\<close> and \<open>settingsDraft\<close> hold references to such objects
  (after \<open>loadSettings\<close> both hold the same reference), and \<open>mutateDraft\<close> copies
  objects with the spread operator. The objects therefore live in an explicit store:
  an address is an index into the list of allocated objects, and an object is the list
  of its own properties in insertion order. Leaves are strings and booleans, as the
  types \<open>DeckyfinSettings\<close>, \<open>RemoteConfig\<close> and \<open>ProtonConfig\<close> declare.

  Property names that JavaScript resolves through \<open>Object.prototype\<close>
  (\<open>__proto__\<close>, \<open>constructor\<close>, ...) are outside the model: a property is an own
  property or it is \<open>undefined\<close>. All paths in the two modules are literal lists of
  field names of the settings types.
\<close>

type_synonym addr = nat

datatype jsprim = PStr string | PBool bool

datatype jsval = Prim jsprim | Ref addr

type_synonym jsobj = "(string \<times> jsval) list"

type_synonym heap = "jsobj list"

text \<open>\<open>obj[key]\<close>: the own property, \<open>None\<close> for \<open>undefined\<close>.\<close>

definition get_prop :: "(string \<times> 'v) list \<Rightarrow> string \<Rightarrow> 'v option" where
  "get_prop obj key = map_of obj key"

text \<open>
  \<open>obj[key] = v\<close> on a fresh copy, and \<open>{ ...obj, [key]: v }\<close>: an existing property
  keeps its position and takes the new value, a new property goes to the end. (The
  order matters to no reader of these objects: every read is by name.)
\<close>

fun set_prop :: "string \<Rightarrow> 'v \<Rightarrow> (string \<times> 'v) list \<Rightarrow> (string \<times> 'v) list" where
  "set_prop key v [] = [(key, v)]"
| "set_prop key v ((k, w) # ps) =
     (if k = key then (key, v) # ps else (k, w) # set_prop key v ps)"

text \<open>Decimal rendering of a number, as a template literal and \<open>String(n)\<close> print it.\<close>

fun show_nat :: "nat \<Rightarrow> string" where
  "show_nat n =
     (if n < 10 then [''0123456789'' ! n]
      else show_nat (n div 10) @ [''0123456789'' ! (n mod 10)])"

definition show_int :: "int \<Rightarrow> string" where
  "show_int i = (if i < 0 then CHR ''-'' # show_nat (nat (- i)) else show_nat (nat i))"

text \<open>
  The own enumerable properties of a string, which is what spreading a string copies:
  one property per character, named by its index.
\<close>

fun string_props :: "nat \<Rightarrow> string \<Rightarrow> jsobj" where
  "string_props i [] = []"
| "string_props i (c # cs) = (show_nat i, Prim (PStr [c])) # string_props (Suc i) cs"

text \<open>
  \<open>{ ...(x ?? {}) }\<close>: the properties the new object starts with. \<open>undefined\<close>
  becomes the empty object, an object reference yields the properties of the object it
  points to (the values are copied as they are, so nested objects are shared), a string
  yields its characters and a boolean yields nothing.
\<close>

fun spread :: "heap \<Rightarrow> jsval option \<Rightarrow> jsobj" where
  "spread h None = []"
| "spread h (Some (Ref a)) = (if a < length h then h ! a else [])"
| "spread h (Some (Prim (PStr s))) = string_props 0 s"
| "spread h (Some (Prim (PBool b))) = []"

subsection \<open>mutateDraft\<close>

text \<open>
  The body of the updater passed to \<open>setSettingsDraft\<close>, after \<open>clone\<close> has been
  allocated at address \<open>cursor\<close>:

  \<^verbatim>\<open>
  for (let i = 0; i < path.length - 1; i++) {
      const segment = path[i];
      cursor[segment] = { ...(cursor[segment] ?? {}) };
      cursor = cursor[segment];
  }
  cursor[path[path.length - 1]] = value;
  \<close>

  Every iteration allocates one new object at the end of the store and writes the
  reference to it into the object under the cursor. With an empty path the loop does not
  run and \<open>path[-1]\<close> is \<open>undefined\<close>, so the property named \<open>undefined\<close> is written.
\<close>

fun mutate_loop :: "heap \<Rightarrow> addr \<Rightarrow> string list \<Rightarrow> jsprim \<Rightarrow> heap" where
  "mutate_loop h cursor [] v = h[cursor := set_prop ''undefined'' (Prim v) (h ! cursor)]"
| "mutate_loop h cursor [leaf] v = h[cursor := set_prop leaf (Prim v) (h ! cursor)]"
| "mutate_loop h cursor (segment # rest) v =
     (let child = spread h (get_prop (h ! cursor) segment);
          a = length h;
          h1 = h @ [child];
          h2 = h1[cursor := set_prop segment (Ref a) (h1 ! cursor)]
      in mutate_loop h2 a rest v)"

text \<open>
  The updater itself: \<open>if (!prev) return prev; const clone = { ...prev }; ...; return clone\<close>.
  It returns the store after the call and the new value of \<open>settingsDraft\<close>.
\<close>

definition draft_updater :: "string list \<Rightarrow> jsprim \<Rightarrow> heap \<Rightarrow> addr option \<Rightarrow> heap \<times> addr option" where
  "draft_updater path v h prev =
     (case prev of
        None \<Rightarrow> (h, None)
      | Some r \<Rightarrow>
          (let clone = length h;
               h1 = h @ [spread h (Some (Ref r))]
           in (mutate_loop h1 clone path v, Some clone)))"

text \<open>
  Reading a value through a path of property names, starting from a value. A path ends
  at a leaf: nothing of the configuration lies below a string or a boolean.
\<close>

fun lookup_path :: "heap \<Rightarrow> jsval \<Rightarrow> string list \<Rightarrow> jsval option" where
  "lookup_path h v [] = Some v"
| "lookup_path h (Prim p) (k # ks) = None"
| "lookup_path h (Ref a) (k # ks) =
     (if a < length h
      then (case get_prop (h ! a) k of None \<Rightarrow> None | Some w \<Rightarrow> lookup_path h w ks)
      else None)"

text \<open>A value of the first \<open>n\<close> cells of the store: a leaf, or a reference below \<open>n\<close>.\<close>

fun val_below :: "nat \<Rightarrow> jsval \<Rightarrow> bool" where
  "val_below n (Prim p) = True"
| "val_below n (Ref a) = (a < n)"

definition obj_below :: "nat \<Rightarrow> jsobj \<Rightarrow> bool" where
  "obj_below n obj = list_all (\<lambda>(k, w). val_below n w) obj"

text \<open>No object of the store refers to an address that is not allocated.\<close>

definition wf_heap :: "heap \<Rightarrow> bool" where
  "wf_heap h = list_all (obj_below (length h)) h"


section \<open>Replies of the backend\<close>

text \<open>
  A settings object as the backend sends it (\<open>get_settings\<close>, \<open>save_settings\<close>): a
  tree of named groups with string and boolean leaves. Decoding a reply allocates one
  new object per group; a repeated name keeps its first position and its last value.
\<close>

datatype json = JLeaf jsprim | JNode "(string \<times> json) list"

fun alloc :: "json \<Rightarrow> heap \<Rightarrow> jsval \<times> heap"
  and alloc_props :: "(string \<times> json) list \<Rightarrow> jsobj \<Rightarrow> heap \<Rightarrow> jsobj \<times> heap" where
  "alloc (JLeaf p) h = (Prim p, h)"
| "alloc (JNode kvs) h =
     (let (obj, h1) = alloc_props kvs [] h in (Ref (length h1), h1 @ [obj]))"
| "alloc_props [] acc h = (acc, h)"
| "alloc_props ((k, j) # kvs) acc h =
     (let (w, h1) = alloc j h in alloc_props kvs (set_prop k w acc) h1)"

definition alloc_object :: "(string \<times> json) list \<Rightarrow> heap \<Rightarrow> addr \<times> heap" where
  "alloc_object kvs h = (let (obj, h1) = alloc_props kvs [] h in (length h1, h1 @ [obj]))"

text \<open>
  \<open>GameEntry\<close>: the fields the front end branches on; the descriptive fields
  (paths, Proton version, dependency and sync-path lists, last backup) are only
  displayed. \<open>steam_appid\<close> is a number; it is an integer here, printed in decimal.
\<close>

record game =
  name :: string
  steam_appid :: int
  installed :: bool
  prefix_ready :: bool
  remote_available :: bool

record games_meta =
  source :: string
  refreshedAt :: string

text \<open>\<open>GamesResponse\<close>.\<close>

record games_response =
  payload_games :: "game list"
  payload_source :: string
  payload_refreshedAt :: string

text \<open>
  \<open>OperationResult\<close>: \<open>message\<close> is read with \<open>??\<close>, so it may be absent;
  \<open>steps\<close> is optional and exists in the second module only. \<open>timestamp\<close>,
  \<open>failures\<close> and \<open>prefix_path\<close> are never read by the front end.
\<close>

record operation_result =
  ok :: bool
  message :: "string option"
  steps :: "string list option"

text \<open>
  How an awaited remote call ends: with the reply, or with a thrown value, of which
  only \<open>error?.message\<close> is ever read.
\<close>

datatype 'a outcome = Resolved 'a | Rejected "string option"

section \<open>The state of the panel and its trace\<close>

text \<open>\<open>toaster.toast({ title, body, critical })\<close>; a missing \<open>critical\<close> is false.\<close>

record toast =
  title :: string
  body :: string
  critical :: bool

datatype rpc_call =
    GetSettingsCall
  | SaveSettingsCall addr
  | LoadGamesCall
  | DownloadGameCall string
  | SetupPrefixCall int
  | InstallGameCall string
  | RemoveGameCall string
  | SyncGameCall string
  | SyncAllCall

datatype action = Toast toast | Call rpc_call | ConsoleError | SetBusy string bool

text \<open>
  The \<open>useState\<close> cells of \<open>Content\<close>, the object store, and the trace of what
  the component has done, oldest first: remote calls issued, toasts, console errors and
  calls of \<open>markBusy\<close>. \<open>busyMap\<close> is the record \<open>Record<string, boolean>\<close> with
  its entries in insertion order.
\<close>

record state =
  store :: heap
  settings :: "addr option"
  settingsDraft :: "addr option"
  settingsDirty :: bool
  savingSettings :: bool
  games :: "game list"
  gamesMeta :: "games_meta option"
  gamesLoading :: bool
  globalError :: "string option"
  busyMap :: "(string \<times> bool) list"
  trace :: "action list"

definition init_state :: state where
  "init_state =
     \<lparr>store = [], settings = None, settingsDraft = None, settingsDirty = False,
      savingSettings = False, games = [], gamesMeta = None, gamesLoading = False,
      globalError = None, busyMap = [], trace = []\<rparr>"

text \<open>The two front-end modules of the repository.\<close>

datatype frontend = IndexTsx | Part000

definition emit :: "action \<Rightarrow> state \<Rightarrow> state" where
  "emit e s = s\<lparr>trace := trace s @ [e]\<rparr>"

text \<open>\<open>setBusyMap(prev => ({ ...prev, [key]: busy }))\<close>.\<close>

definition markBusy :: "string \<Rightarrow> bool \<Rightarrow> state \<Rightarrow> state" where
  "markBusy key busy s =
     emit (SetBusy key busy) (s\<lparr>busyMap := set_prop key busy (busyMap s)\<rparr>)"

text \<open>
  \<open>mutateDraft\<close>: the updater runs on the current draft, then
  \<open>setSettingsDirty(true)\<close> runs whatever the updater did.
\<close>

definition mutateDraft :: "string list \<Rightarrow> jsprim \<Rightarrow> state \<Rightarrow> state" where
  "mutateDraft path v s =
     (let (h, d) = draft_updater path v (store s) (settingsDraft s)
      in s\<lparr>store := h, settingsDraft := d, settingsDirty := True\<rparr>)"


section \<open>The asynchronous functions\<close>

text \<open>
  Each \<open>async\<close> function of \<open>Content\<close> awaits exactly one remote call. It is
  modelled by two state transformers: \<open>f_start\<close> is the part that runs when the
  function is called, up to and including the remote call, and \<open>f_resume\<close> is the
  part that runs when the call has settled, down to the end of the function (its
  \<open>catch\<close> and \<open>finally\<close> blocks included). Between the two, other handlers may
  run. State setters take effect in the order in which they are called; a handler reads
  the state of the render it was created in, taken to be the current one.
\<close>

datatype operation =
    Download string
  | Setup int string
  | Install string
  | Remove string
  | Sync string
  | SyncAll

datatype task = AwaitGetSettings | AwaitSaveSettings | AwaitLoadGames | AwaitOp operation

subsection \<open>loadSettings\<close>

definition loadSettings_start :: "state \<Rightarrow> state" where
  "loadSettings_start s = emit (Call GetSettingsCall) s"

definition loadSettings_resume :: "(string \<times> json) list outcome \<Rightarrow> state \<Rightarrow> state" where
  "loadSettings_resume out s =
     (case out of
        Resolved reply \<Rightarrow>
          (let (loaded, h) = alloc_object reply (store s)
           in s\<lparr>store := h, settings := Some loaded, settingsDraft := Some loaded,
                settingsDirty := False\<rparr>)
      | Rejected e \<Rightarrow>
          (emit ConsoleError s)\<lparr>globalError := Some ''Unable to load plugin settings''\<rparr>)"

subsection \<open>loadGames\<close>

definition loadGames_start :: "state \<Rightarrow> state" where
  "loadGames_start s =
     emit (Call LoadGamesCall) (s\<lparr>gamesLoading := True, globalError := None\<rparr>)"

definition load_failed_message :: "frontend \<Rightarrow> string" where
  "load_failed_message fe =
     (case fe of
        IndexTsx \<Rightarrow> ''Failed to read games YAML. Check the path and syntax.''
      | Part000 \<Rightarrow>
          ''Failed to read config file. Check remote host, config path, and JSON syntax.'')"

definition loadGames_resume :: "frontend \<Rightarrow> games_response outcome \<Rightarrow> state \<Rightarrow> state" where
  "loadGames_resume fe out s =
     (case out of
        Resolved payload \<Rightarrow>
          s\<lparr>games := payload_games payload,
            gamesMeta := Some \<lparr>source = payload_source payload,
                               refreshedAt = payload_refreshedAt payload\<rparr>,
            gamesLoading := False\<rparr>
      | Rejected e \<Rightarrow>
          (emit ConsoleError s)\<lparr>globalError := Some (load_failed_message fe),
                                 gamesLoading := False\<rparr>)"

subsection \<open>persistSettings\<close>

text \<open>
  \<open>if (!settingsDraft || savingSettings) return;\<close> is the only guard. The result
  says whether the function returned at once (\<open>None\<close>) or awaits \<open>save_settings\<close>.
\<close>

definition persistSettings_start :: "state \<Rightarrow> state \<times> task option" where
  "persistSettings_start s =
     (case settingsDraft s of
        None \<Rightarrow> (s, None)
      | Some d \<Rightarrow>
          if savingSettings s then (s, None)
          else (emit (Call (SaveSettingsCall d)) (s\<lparr>savingSettings := True\<rparr>),
                Some AwaitSaveSettings))"

definition persistSettings_resume :: "(string \<times> json) list outcome \<Rightarrow> state \<Rightarrow> state" where
  "persistSettings_resume out s =
     (case out of
        Resolved reply \<Rightarrow>
          (let (updated, h) = alloc_object reply (store s);
               s1 = s\<lparr>store := h, settings := Some updated, settingsDraft := Some updated,
                      settingsDirty := False\<rparr>;
               s2 = emit (Toast \<lparr>title = ''Deckyfin'', body = ''Settings saved'',
                                 critical = False\<rparr>) s1
           in s2\<lparr>savingSettings := False\<rparr>)
      | Rejected e \<Rightarrow>
          (let s1 = emit ConsoleError s;
               s2 = emit (Toast \<lparr>title = ''Deckyfin'', body = ''Unable to save settings'',
                                 critical = True\<rparr>) s1
           in s2\<lparr>savingSettings := False\<rparr>))"

subsection \<open>callWithToaster\<close>

text \<open>
  \<open>callWithToaster(action, success)\<close> calls \<open>action()\<close> at once; \<open>action\<close> is
  always one remote call. When it has settled the function toasts and hands the reply
  on, or toasts critically and throws the error again. A reply is an
  \<open>OperationResult\<close>, as the type of the callable says.
\<close>

definition callWithToaster_start :: "rpc_call \<Rightarrow> state \<Rightarrow> state" where
  "callWithToaster_start action s = emit (Call action) s"

definition callWithToaster_resume ::
  "string \<Rightarrow> operation_result outcome \<Rightarrow> state \<Rightarrow> state \<times> operation_result outcome" where
  "callWithToaster_resume success out s =
     (case out of
        Resolved result \<Rightarrow>
          (emit (Toast \<lparr>title = ''Deckyfin'',
                         body = (case message result of Some m \<Rightarrow> m | None \<Rightarrow> success),
                         critical = False\<rparr>) s,
           Resolved result)
      | Rejected e \<Rightarrow>
          (emit (Toast \<lparr>title = ''Deckyfin'',
                         body = (case e of Some m \<Rightarrow> m | None \<Rightarrow> ''Operation failed''),
                         critical = True\<rparr>) s,
           Rejected e))"

subsection \<open>The handlers\<close>

text \<open>
  Every handler is \<open>markBusy(key, true); try { await callWithToaster(...) ... }
  finally { markBusy(key, false); loadGames(); }\<close>. \<open>loadGames()\<close> is called and not
  awaited, so only its first part belongs to the handler. The second component of a
  \<open>_resume\<close> is how the handler's own promise ends: the error thrown again by
  \<open>callWithToaster\<close> passes through \<open>finally\<close>.
\<close>

definition settled :: "operation_result outcome \<Rightarrow> unit outcome" where
  "settled r = (case r of Resolved result \<Rightarrow> Resolved () | Rejected e \<Rightarrow> Rejected e)"

definition handleDownload_start :: "string \<Rightarrow> state \<Rightarrow> state" where
  "handleDownload_start nm s =
     callWithToaster_start (DownloadGameCall nm) (markBusy (''download-'' @ nm) True s)"

definition handleDownload_resume ::
  "string \<Rightarrow> operation_result outcome \<Rightarrow> state \<Rightarrow> state \<times> unit outcome" where
  "handleDownload_resume nm out s =
     (let (s1, r) = callWithToaster_resume ''Download complete'' out s
      in (loadGames_start (markBusy (''download-'' @ nm) False s1), settled r))"

definition handleSetup_start :: "int \<Rightarrow> string \<Rightarrow> state \<Rightarrow> state" where
  "handleSetup_start appid nm s =
     callWithToaster_start (SetupPrefixCall appid) (markBusy (''setup-'' @ show_int appid) True s)"

definition handleSetup_resume ::
  "int \<Rightarrow> string \<Rightarrow> operation_result outcome \<Rightarrow> state \<Rightarrow> state \<times> unit outcome" where
  "handleSetup_resume appid nm out s =
     (let (s1, r) = callWithToaster_resume ''Prefix prepared'' out s
      in (loadGames_start (markBusy (''setup-'' @ show_int appid) False s1), settled r))"

definition handleSync_start :: "string \<Rightarrow> state \<Rightarrow> state" where
  "handleSync_start nm s =
     callWithToaster_start (SyncGameCall nm) (markBusy (''sync-'' @ nm) True s)"

definition handleSync_resume ::
  "string \<Rightarrow> operation_result outcome \<Rightarrow> state \<Rightarrow> state \<times> unit outcome" where
  "handleSync_resume nm out s =
     (let (s1, r) = callWithToaster_resume ''Saves synced'' out s
      in (loadGames_start (markBusy (''sync-'' @ nm) False s1), settled r))"

definition handleSyncAll_start :: "state \<Rightarrow> state" where
  "handleSyncAll_start s = callWithToaster_start SyncAllCall (markBusy ''sync-all'' True s)"

definition handleSyncAll_resume ::
  "operation_result outcome \<Rightarrow> state \<Rightarrow> state \<times> unit outcome" where
  "handleSyncAll_resume out s =
     (let (s1, r) = callWithToaster_resume ''Saves synced for all games'' out s
      in (loadGames_start (markBusy ''sync-all'' False s1), settled r))"

text \<open>\<open>xs.join(", ")\<close>.\<close>

fun join :: "string list \<Rightarrow> string" where
  "join [] = []"
| "join [x] = x"
| "join (x # xs) = x @ '', '' @ join xs"

text \<open>
  \<open>if (result.steps && result.steps.length > 0) toaster.toast({ title, body:
  result.steps.join(", ") })\<close>, which \<open>handleInstall\<close> and \<open>handleRemove\<close> run on
  the reply that \<open>callWithToaster\<close> returned. When it threw, the statement is skipped.
\<close>

definition toast_steps :: "string \<Rightarrow> operation_result outcome \<Rightarrow> state \<Rightarrow> state" where
  "toast_steps ttl r s =
     (case r of
        Resolved result \<Rightarrow>
          (case steps result of
             None \<Rightarrow> s
           | Some ss \<Rightarrow>
               if length ss > 0
               then emit (Toast \<lparr>title = ttl, body = join ss, critical = False\<rparr>) s
               else s)
      | Rejected e \<Rightarrow> s)"

definition handleInstall_start :: "string \<Rightarrow> state \<Rightarrow> state" where
  "handleInstall_start nm s =
     callWithToaster_start (InstallGameCall nm) (markBusy (''install-'' @ nm) True s)"

definition handleInstall_resume ::
  "string \<Rightarrow> operation_result outcome \<Rightarrow> state \<Rightarrow> state \<times> unit outcome" where
  "handleInstall_resume nm out s =
     (let (s1, r) = callWithToaster_resume ''Installation complete'' out s;
          s2 = toast_steps ''Installation steps'' r s1
      in (loadGames_start (markBusy (''install-'' @ nm) False s2), settled r))"

definition handleRemove_start :: "string \<Rightarrow> state \<Rightarrow> state" where
  "handleRemove_start nm s =
     callWithToaster_start (RemoveGameCall nm) (markBusy (''remove-'' @ nm) True s)"

definition handleRemove_resume ::
  "string \<Rightarrow> operation_result outcome \<Rightarrow> state \<Rightarrow> state \<times> unit outcome" where
  "handleRemove_resume nm out s =
     (let (s1, r) = callWithToaster_resume ''Game removed'' out s;
          s2 = toast_steps ''Removal steps'' r s1
      in (loadGames_start (markBusy (''remove-'' @ nm) False s2), settled r))"

subsection \<open>Dispatch of an operation\<close>

text \<open>
  The handlers indexed by the operation they perform. \<open>index.tsx\<close> has download,
  setup, sync and sync-all; the second module has install, remove, sync and sync-all.
\<close>

fun offered :: "frontend \<Rightarrow> operation \<Rightarrow> bool" where
  "offered IndexTsx (Download nm) = True"
| "offered IndexTsx (Setup appid nm) = True"
| "offered Part000 (Install nm) = True"
| "offered Part000 (Remove nm) = True"
| "offered fe (Sync nm) = True"
| "offered fe SyncAll = True"
| "offered fe opn = False"

fun op_key :: "operation \<Rightarrow> string" where
  "op_key (Download nm) = ''download-'' @ nm"
| "op_key (Setup appid nm) = ''setup-'' @ show_int appid"
| "op_key (Install nm) = ''install-'' @ nm"
| "op_key (Remove nm) = ''remove-'' @ nm"
| "op_key (Sync nm) = ''sync-'' @ nm"
| "op_key SyncAll = ''sync-all''"

fun op_start :: "operation \<Rightarrow> state \<Rightarrow> state" where
  "op_start (Download nm) = handleDownload_start nm"
| "op_start (Setup appid nm) = handleSetup_start appid nm"
| "op_start (Install nm) = handleInstall_start nm"
| "op_start (Remove nm) = handleRemove_start nm"
| "op_start (Sync nm) = handleSync_start nm"
| "op_start SyncAll = handleSyncAll_start"

fun op_resume :: "operation \<Rightarrow> operation_result outcome \<Rightarrow> state \<Rightarrow> state \<times> unit outcome" where
  "op_resume (Download nm) = handleDownload_resume nm"
| "op_resume (Setup appid nm) = handleSetup_resume appid nm"
| "op_resume (Install nm) = handleInstall_resume nm"
| "op_resume (Remove nm) = handleRemove_resume nm"
| "op_resume (Sync nm) = handleSync_resume nm"
| "op_resume SyncAll = handleSyncAll_resume"


section \<open>What the panel renders\<close>

text \<open>\<open>const disableActions = gamesLoading || savingSettings\<close>.\<close>

definition disableActions :: "state \<Rightarrow> bool" where
  "disableActions s = (gamesLoading s \<or> savingSettings s)"

text \<open>The truthiness of \<open>busyMap[key]\<close>: a missing entry and \<open>false\<close> are both falsy.\<close>

definition busy_at :: "state \<Rightarrow> string \<Rightarrow> bool" where
  "busy_at s key = (get_prop (busyMap s) key = Some True)"

text \<open>
  The \<open>busy\<close> property of a game's card, the same expression in both modules:
  \<open>busyMap[`download-${game.name}`] || busyMap[`setup-${game.steam_appid}`] ||
  busyMap[`sync-${game.name}`] || disableActions\<close>.
\<close>

definition card_busy :: "state \<Rightarrow> game \<Rightarrow> bool" where
  "card_busy s g =
     (busy_at s (''download-'' @ name g) \<or>
      busy_at s (''setup-'' @ show_int (steam_appid g)) \<or>
      busy_at s (''sync-'' @ name g) \<or>
      disableActions s)"

text \<open>The buttons of a \<open>GameCard\<close>, each with its \<open>disabled\<close> property.\<close>

datatype control = DownloadButton | SetupButton | InstallButton | RemoveButton | SyncButton

definition card_controls :: "frontend \<Rightarrow> game \<Rightarrow> bool \<Rightarrow> (control \<times> bool) list" where
  "card_controls fe g busy =
     (case fe of
        IndexTsx \<Rightarrow>
          (if remote_available g then [(DownloadButton, busy)] else []) @
          [(SetupButton, busy), (SyncButton, busy)]
      | Part000 \<Rightarrow>
          (if \<not> installed g then [(InstallButton, busy \<or> \<not> remote_available g)]
           else [(RemoveButton, busy), (SyncButton, busy)]))"

text \<open>
  The Save button, \<open>disabled={!settingsDirty || savingSettings}\<close>, which is the only
  caller of \<open>persistSettings\<close>; it is rendered with the configuration section, under
  \<open>settingsDraft && ...\<close>.
\<close>

definition save_disabled :: "state \<Rightarrow> bool" where
  "save_disabled s = (\<not> settingsDirty s \<or> savingSettings s)"

definition config_section_shown :: "state \<Rightarrow> bool" where
  "config_section_shown s = (settingsDraft s \<noteq> None)"

text \<open>
  The header of the games section, \<open>gamesMeta ? `Library (${sortedGames.length})` :
  "Library"\<close>, and the condition of the empty-library row,
  \<open>sortedGames.length === 0\<close>. \<open>sortedGames\<close> is a sorted copy of \<open>games\<close>, of the
  same length.
\<close>

definition library_title :: "state \<Rightarrow> string" where
  "library_title s =
     (case gamesMeta s of
        None \<Rightarrow> ''Library''
      | Some m \<Rightarrow> ''Library ('' @ show_nat (length (games s)) @ '')'')"

definition empty_library_shown :: "state \<Rightarrow> bool" where
  "empty_library_shown s = (length (games s) = 0)"

section \<open>Executions\<close>

text \<open>
  A configuration is the state together with the remote calls that have been issued and
  have not settled yet. One step is either a handler called by the user interface (its
  \<open>_start\<close> part) or one pending call settling (the \<open>_resume\<close> part of the function
  that awaits it). The steps do not look at which controls are disabled, so the
  executions of the real panel are among the ones described here.

  The effect \<open>useEffect(() => { if (settings) loadGames(); }, [settings])\<close> runs when
  \<open>settings\<close> has received a new object, that is after a successful load or save.
\<close>

definition settings_effect :: "state \<times> task list \<Rightarrow> state \<times> task list" where
  "settings_effect c =
     (case settings (fst c) of
        None \<Rightarrow> c
      | Some a \<Rightarrow> (loadGames_start (fst c), snd c @ [AwaitLoadGames]))"

definition mounted :: "state \<times> task list" where
  "mounted = (loadSettings_start init_state, [AwaitGetSettings])"

inductive step :: "frontend \<Rightarrow> state \<times> task list \<Rightarrow> state \<times> task list \<Rightarrow> bool"
  for fe :: frontend where
  edit: "step fe (s, ts) (mutateDraft path v s, ts)"
| save: "step fe (s, ts) (fst (persistSettings_start s),
                          ts @ (case snd (persistSettings_start s) of None \<Rightarrow> [] | Some t \<Rightarrow> [t]))"
| refresh: "step fe (s, ts) (loadGames_start s, ts @ [AwaitLoadGames])"
| dispatch: "offered fe opn \<Longrightarrow> step fe (s, ts) (op_start opn s, ts @ [AwaitOp opn])"
| settings_loaded:
    "AwaitGetSettings \<in> set ts \<Longrightarrow>
     step fe (s, ts)
       (settings_effect (loadSettings_resume (Resolved reply) s, remove1 AwaitGetSettings ts))"
| settings_failed:
    "AwaitGetSettings \<in> set ts \<Longrightarrow>
     step fe (s, ts) (loadSettings_resume (Rejected e) s, remove1 AwaitGetSettings ts)"
| settings_saved:
    "AwaitSaveSettings \<in> set ts \<Longrightarrow>
     step fe (s, ts)
       (settings_effect (persistSettings_resume (Resolved reply) s, remove1 AwaitSaveSettings ts))"
| save_failed:
    "AwaitSaveSettings \<in> set ts \<Longrightarrow>
     step fe (s, ts) (persistSettings_resume (Rejected e) s, remove1 AwaitSaveSettings ts)"
| games_settled:
    "AwaitLoadGames \<in> set ts \<Longrightarrow>
     step fe (s, ts) (loadGames_resume fe out s, remove1 AwaitLoadGames ts)"
| op_settled:
    "AwaitOp opn \<in> set ts \<Longrightarrow>
     step fe (s, ts)
       (fst (op_resume opn out s), remove1 (AwaitOp opn) ts @ [AwaitLoadGames])"

inductive reachable :: "frontend \<Rightarrow> state \<times> task list \<Rightarrow> bool"
  for fe :: frontend where
  at_mount: "reachable fe mounted"
| after_step: "reachable fe c \<Longrightarrow> step fe c c' \<Longrightarrow> reachable fe c'"

text \<open>The trace since an earlier state, and what it holds.\<close>

definition trace_since :: "state \<Rightarrow> state \<Rightarrow> action list" where
  "trace_since s s' = drop (length (trace s)) (trace s')"

fun toasts_of :: "action list \<Rightarrow> toast list" where
  "toasts_of [] = []"
| "toasts_of (Toast t # es) = t # toasts_of es"
| "toasts_of (e # es) = toasts_of es"

definition refresh_count :: "state \<Rightarrow> nat" where
  "refresh_count s = length (filter (\<lambda>e. e = Call LoadGamesCall) (trace s))"


section \<open>Notions used in the statements\<close>

text \<open>What the draft holds at a path, \<open>None\<close> when there is no draft or no such path.\<close>

definition draft_lookup :: "state \<Rightarrow> string list \<Rightarrow> jsval option" where
  "draft_lookup s path =
     (case settingsDraft s of None \<Rightarrow> None | Some r \<Rightarrow> lookup_path (store s) (Ref r) path)"

text \<open>
  Two paths diverge when they differ at a position that both have, so that neither
  leads through the node the other one ends at.
\<close>

fun diverge :: "string list \<Rightarrow> string list \<Rightarrow> bool" where
  "diverge [] q = False"
| "diverge (k # p) [] = False"
| "diverge (k # p) (k' # q) = (k \<noteq> k' \<or> diverge p q)"

text \<open>
  The first \<open>n\<close> cells of a store refer to each other only, and a second store has the
  same first \<open>n\<close> cells.
\<close>

definition closed :: "nat \<Rightarrow> heap \<Rightarrow> bool" where
  "closed n h = (n \<le> length h \<and> (\<forall>i<n. obj_below n (h ! i)))"

definition agree :: "nat \<Rightarrow> heap \<Rightarrow> heap \<Rightarrow> bool" where
  "agree n h h' = (n \<le> length h' \<and> (\<forall>i<n. h' ! i = h ! i))"

text \<open>
  What the loop of \<open>mutateDraft\<close> achieves from the object under the cursor: the leaf
  at the path holds the new value, every diverging path reads what it read before, and
  every node on the way to the leaf is an object allocated at or after address \<open>n\<close>.
\<close>

definition loop_post :: "nat \<Rightarrow> heap \<Rightarrow> heap \<Rightarrow> addr \<Rightarrow> string list \<Rightarrow> jsprim \<Rightarrow> bool" where
  "loop_post n h h' c p v =
     (lookup_path h' (Ref c) p = Some (Prim v) \<and>
      (\<forall>q. diverge p q \<longrightarrow> lookup_path h' (Ref c) q = lookup_path h (Ref c) q) \<and>
      (\<forall>q k ks. p = q @ k # ks \<longrightarrow>
         (\<exists>b. n \<le> b \<and> lookup_path h' (Ref c) q = Some (Ref b))))"

text \<open>
  The representation invariant of a state: the store is well formed, and the persisted
  configuration and the draft, when set, are allocated objects.
\<close>

definition state_ok :: "state \<Rightarrow> bool" where
  "state_ok s =
     (wf_heap (store s) \<and>
      (\<forall>a. settings s = Some a \<longrightarrow> a < length (store s)) \<and>
      (\<forall>a. settingsDraft s = Some a \<longrightarrow> a < length (store s)))"

text \<open>The busy-map keys of the operations that are in flight.\<close>

fun task_key :: "task \<Rightarrow> string option" where
  "task_key (AwaitOp opn) = Some (op_key opn)"
| "task_key t = None"

definition pending_keys :: "task list \<Rightarrow> string list" where
  "pending_keys ts = List.map_filter task_key ts"

text \<open>The toast of \<open>callWithToaster\<close> for a reply, and the toast of a failed save.\<close>

definition result_toast :: "string \<Rightarrow> operation_result \<Rightarrow> toast" where
  "result_toast success result =
     \<lparr>title = ''Deckyfin'',
      body = (case message result of Some m \<Rightarrow> m | None \<Rightarrow> success),
      critical = False\<rparr>"

definition save_failed_toast :: toast where
  "save_failed_toast =
     \<lparr>title = ''Deckyfin'', body = ''Unable to save settings'', critical = True\<rparr>"

subsection \<open>Sample data\<close>

text \<open>
  A settings reply of the second module's shape, the state after it has been loaded,
  after one edit of the draft, and while the edited draft is being saved.
\<close>

definition sample_reply :: "(string \<times> json) list" where
  "sample_reply =
     [(''localGamesPath'', JLeaf (PStr ''/games'')),
      (''proton'', JNode [(''compatdataPath'', JLeaf (PStr ''/compat'')),
                          (''defaultVersion'', JLeaf (PStr ''GE-1''))]),
      (''saveBackupPath'', JLeaf (PStr ''/backup''))]"

definition loaded_state :: state where
  "loaded_state = loadSettings_resume (Resolved sample_reply) (loadSettings_start init_state)"

definition edited_state :: state where
  "edited_state = mutateDraft [''proton'', ''defaultVersion''] (PStr ''GE-2'') loaded_state"

definition saving_state :: state where
  "saving_state = fst (persistSettings_start edited_state)"

definition empty_payload :: games_response where
  "empty_payload =
     \<lparr>payload_games = [], payload_source = ''remote'', payload_refreshedAt = ''2024-01-01''\<rparr>"

definition alpha :: game where
  "alpha = \<lparr>name = ''Alpha'', steam_appid = 730, installed = False, prefix_ready = False,
            remote_available = True\<rparr>"

definition sample_result :: operation_result where
  "sample_result = \<lparr>ok = True, message = Some ''done'', steps = Some [''copy'', ''link'']\<rparr>"


text \<open>
  An execution of \<open>index.tsx\<close>: the panel is mounted, the user starts a save sync of
  the game Alpha, and the sync call resolves.
\<close>

definition sync_started :: "state \<times> task list" where
  "sync_started =
     (op_start (Sync ''Alpha'') (fst mounted), snd mounted @ [AwaitOp (Sync ''Alpha'')])"

definition sync_settled :: "state \<times> task list" where
  "sync_settled =
     (fst (op_resume (Sync ''Alpha'') (Resolved sample_result) (fst sync_started)),
      remove1 (AwaitOp (Sync ''Alpha'')) (snd sync_started) @ [AwaitLoadGames])"

text \<open>
  An execution of the second module: the panel is mounted, the settings arrive, and the
  user edits the default Proton version. And a state with two save syncs in flight.
\<close>

definition loaded_config :: "state \<times> task list" where
  "loaded_config =
     settings_effect (loadSettings_resume (Resolved sample_reply) (fst mounted),
                      remove1 AwaitGetSettings (snd mounted))"

definition edited_config :: "state \<times> task list" where
  "edited_config =
     (mutateDraft [''proton'', ''defaultVersion''] (PStr ''GE-2'') (fst loaded_config),
      snd loaded_config)"

definition two_syncs :: state where
  "two_syncs = op_start (Sync ''Beta'') (op_start (Sync ''Alpha'') loaded_state)"

section \<open>Basic facts\<close>

lemmas handler_start_defs =
  handleDownload_start_def handleSetup_start_def handleSync_start_def
  handleSyncAll_start_def handleInstall_start_def handleRemove_start_def

lemmas handler_resume_defs =
  handleDownload_resume_def handleSetup_resume_def handleSync_resume_def
  handleSyncAll_resume_def handleInstall_resume_def handleRemove_resume_def

lemma get_prop_set_prop:
  "get_prop (set_prop k v ps) k' = (if k' = k then Some v else get_prop ps k')"
  by (induction ps) (auto simp: get_prop_def)

lemma keys_set_prop: "fst ` set (set_prop k v ps) = insert k (fst ` set ps)"
proof (induction ps)
  case Nil
  then show ?case by simp
next
  case (Cons x ps)
  then show ?case by (cases x) (auto simp: image_iff)
qed

lemma loaded_state_eq:
  "loaded_state =
     \<lparr>store = [[(''compatdataPath'', Prim (PStr ''/compat'')),
                (''defaultVersion'', Prim (PStr ''GE-1''))],
               [(''localGamesPath'', Prim (PStr ''/games'')), (''proton'', Ref 0),
                (''saveBackupPath'', Prim (PStr ''/backup''))]],
      settings = Some 1, settingsDraft = Some 1, settingsDirty = False,
      savingSettings = False, games = [], gamesMeta = None, gamesLoading = False,
      globalError = None, busyMap = [], trace = [Call GetSettingsCall]\<rparr>"
  by (simp add: loaded_state_def sample_reply_def loadSettings_resume_def
      loadSettings_start_def init_state_def emit_def alloc_object_def)

lemma edited_state_eq:
  "edited_state =
     \<lparr>store = [[(''compatdataPath'', Prim (PStr ''/compat'')),
                (''defaultVersion'', Prim (PStr ''GE-1''))],
               [(''localGamesPath'', Prim (PStr ''/games'')), (''proton'', Ref 0),
                (''saveBackupPath'', Prim (PStr ''/backup''))],
               [(''localGamesPath'', Prim (PStr ''/games'')), (''proton'', Ref 3),
                (''saveBackupPath'', Prim (PStr ''/backup''))],
               [(''compatdataPath'', Prim (PStr ''/compat'')),
                (''defaultVersion'', Prim (PStr ''GE-2''))]],
      settings = Some 1, settingsDraft = Some 2, settingsDirty = True,
      savingSettings = False, games = [], gamesMeta = None, gamesLoading = False,
      globalError = None, busyMap = [], trace = [Call GetSettingsCall]\<rparr>"
  by (simp add: edited_state_def loaded_state_eq mutateDraft_def draft_updater_def get_prop_def)

lemma saving_state_eq:
  "saving_state =
     edited_state\<lparr>savingSettings := True,
                   trace := [Call GetSettingsCall, Call (SaveSettingsCall 2)]\<rparr>"
  by (simp add: saving_state_def persistSettings_start_def emit_def edited_state_eq)

section \<open>The configuration draft\<close>

subsection \<open>persistSettings returns at once\<close>

text \<open>
  Claim C1 (amended). The claim reads: \<open>commit()\<close> is a no-op whenever the draft is
  unset, or DirtyFlag is false, or a commit is already in flight. \<open>persistSettings\<close>
  tests the draft and \<open>savingSettings\<close> and nothing else. So it returns at once,
  issuing no call, no toast and changing no state, whenever the draft is unset or a save
  is in flight; in particular a second call, made while the first one awaits its reply,
  does nothing. It does not look at \<open>settingsDirty\<close>: what holds while DirtyFlag is
  false (or a save is in flight) is that the Save button, its only caller, is disabled,
  and while the draft is unset the section holding the button is not rendered.
\<close>

theorem persistSettings_noop:
  "(settingsDraft s = None \<or> savingSettings s \<longrightarrow> persistSettings_start s = (s, None)) \<and>
   persistSettings_start (fst (persistSettings_start s)) = (fst (persistSettings_start s), None) \<and>
   (\<not> settingsDirty s \<or> savingSettings s \<longrightarrow> save_disabled s) \<and>
   (settingsDraft s = None \<longrightarrow> \<not> config_section_shown s)"
  by (simp add: persistSettings_start_def save_disabled_def config_section_shown_def emit_def
      split: option.splits)

theorem persistSettings_noop_witness:
  "settingsDraft init_state = None \<and> persistSettings_start init_state = (init_state, None) \<and>
   savingSettings saving_state \<and> persistSettings_start saving_state = (saving_state, None) \<and>
   settingsDirty loaded_state = False \<and> save_disabled loaded_state \<and>
   config_section_shown init_state = False"
proof -
  have a: "settingsDraft init_state = None" by (simp add: init_state_def)
  have b: "savingSettings saving_state" by (simp add: saving_state_eq)
  have c: "settingsDirty loaded_state = False" by (simp add: loaded_state_eq)
  from persistSettings_noop[of init_state] a
  have 1: "persistSettings_start init_state = (init_state, None)"
    and 2: "config_section_shown init_state = False" by simp_all
  from persistSettings_noop[of saving_state] b
  have 3: "persistSettings_start saving_state = (saving_state, None)" by simp
  from persistSettings_noop[of loaded_state] c have 4: "save_disabled loaded_state" by simp
  show ?thesis using a b c 1 2 3 4 by simp
qed

text \<open>
  With a draft that is set and not dirty, and no save in flight, \<open>persistSettings\<close>
  sends the draft to \<open>save_settings\<close>.
\<close>

theorem persistSettings_sends_clean_draft:
  "settingsDraft loaded_state = Some 1 \<and> settingsDirty loaded_state = False \<and>
   savingSettings loaded_state = False \<and>
   snd (persistSettings_start loaded_state) = Some AwaitSaveSettings \<and>
   trace_since loaded_state (fst (persistSettings_start loaded_state)) =
     [Call (SaveSettingsCall 1)] \<and>
   savingSettings (fst (persistSettings_start loaded_state)) = True"
  by (simp add: loaded_state_eq persistSettings_start_def emit_def trace_since_def)

subsection \<open>mutateDraft without a draft\<close>

text \<open>
  Claim C5 (amended). The claim reads: if the draft is unset, \<open>mutate(path, value)\<close>
  leaves the whole store state, DirtyFlag included, exactly as it was. The guard
  \<open>if (!prev) return prev\<close> is inside the updater of the draft, and
  \<open>setSettingsDirty(true)\<close> follows it unconditionally. So with an unset draft the
  draft stays unset and the persisted configuration, the object store and every other
  cell are as before, while DirtyFlag is set to true as on every call; the state as a
  whole is unchanged when DirtyFlag was true already.
\<close>

theorem mutateDraft_unset:
  "settingsDraft s = None \<Longrightarrow> mutateDraft p v s = s\<lparr>settingsDirty := True\<rparr>"
  by (simp add: mutateDraft_def draft_updater_def)

theorem mutateDraft_unset_witness:
  "settingsDraft init_state = None \<and>
   mutateDraft [''localGamesPath''] (PStr ''/games'') init_state =
     init_state\<lparr>settingsDirty := True\<rparr>"
proof -
  have a: "settingsDraft init_state = None" by (simp add: init_state_def)
  show ?thesis using a mutateDraft_unset[OF a] by simp
qed

theorem mutateDraft_unset_sets_dirty:
  "settingsDraft init_state = None \<and> settingsDirty init_state = False \<and>
   settingsDirty (mutateDraft [''localGamesPath''] (PStr ''/games'') init_state) = True"
  by (simp add: init_state_def mutateDraft_def draft_updater_def)

subsection \<open>A failed save\<close>

text \<open>
  Claim C6. If \<open>save_settings\<close> throws during a commit, the draft remains exactly as
  submitted, DirtyFlag keeps its value (true, when the draft was dirty), the persisted
  configuration is not altered in any field, and exactly one notification is issued,
  which is critical. The first five conjuncts hold for the state in which the failure
  arrives, whatever has happened since the call was issued; the last one is the commit
  as a whole: but for its trace the state is the one the commit started from.
\<close>

theorem save_failure_keeps_draft:
  "store (persistSettings_resume (Rejected e) s) = store s \<and>
   settingsDraft (persistSettings_resume (Rejected e) s) = settingsDraft s \<and>
   settingsDirty (persistSettings_resume (Rejected e) s) = settingsDirty s \<and>
   settings (persistSettings_resume (Rejected e) s) = settings s \<and>
   toasts_of (trace_since s (persistSettings_resume (Rejected e) s)) = [save_failed_toast] \<and>
   (settingsDraft s = Some d \<and> \<not> savingSettings s \<longrightarrow>
      snd (persistSettings_start s) = Some AwaitSaveSettings \<and>
      persistSettings_resume (Rejected e) (fst (persistSettings_start s)) =
        s\<lparr>trace := trace s @
             [Call (SaveSettingsCall d), ConsoleError, Toast save_failed_toast]\<rparr>)"
  by (simp add: persistSettings_resume_def persistSettings_start_def emit_def trace_since_def
      save_failed_toast_def Let_def)

theorem save_failure_keeps_draft_witness:
  "settingsDraft edited_state = Some 2 \<and> savingSettings edited_state = False \<and>
   settingsDirty edited_state = True \<and>
   snd (persistSettings_start edited_state) = Some AwaitSaveSettings \<and>
   persistSettings_resume (Rejected None) (fst (persistSettings_start edited_state)) =
     edited_state\<lparr>trace := trace edited_state @
        [Call (SaveSettingsCall 2), ConsoleError, Toast save_failed_toast]\<rparr> \<and>
   settingsDirty
     (persistSettings_resume (Rejected None) (fst (persistSettings_start edited_state))) = True"
proof -
  have a: "settingsDraft edited_state = Some 2" and b: "savingSettings edited_state = False"
    and c: "settingsDirty edited_state = True"
    by (simp_all add: edited_state_eq)
  from save_failure_keeps_draft[of None edited_state 2] a b
  have d: "snd (persistSettings_start edited_state) = Some AwaitSaveSettings"
    and e: "persistSettings_resume (Rejected None) (fst (persistSettings_start edited_state)) =
     edited_state\<lparr>trace := trace edited_state @
        [Call (SaveSettingsCall 2), ConsoleError, Toast save_failed_toast]\<rparr>"
    by simp_all
  show ?thesis using a b c d e by simp
qed


subsection \<open>mutateDraft changes one leaf\<close>

text \<open>Cells other than the cursor's are not written, and the store only grows.\<close>

lemma get_prop_below: "obj_below n obj \<Longrightarrow> get_prop obj k = Some w \<Longrightarrow> val_below n w"
  by (auto simp: obj_below_def get_prop_def list_all_iff dest!: map_of_SomeD)

lemma mutate_loop_length: "length h \<le> length (mutate_loop h c p v)"
proof (induction h c p v rule: mutate_loop.induct)
  case (3 h cursor segment k rest v)
  from 3[OF refl refl refl refl] show ?case by (simp add: Let_def)
qed simp_all

lemma mutate_loop_other:
  "i < length h \<Longrightarrow> i \<noteq> c \<Longrightarrow> mutate_loop h c p v ! i = h ! i"
proof (induction h c p v rule: mutate_loop.induct)
  case (3 h cursor segment k rest v)
  from 3(1)[OF refl refl refl refl] 3(2,3) show ?case by (simp add: Let_def nth_append)
qed simp_all

lemma mutate_loop_agree: "n \<le> c \<Longrightarrow> n \<le> length h \<Longrightarrow> agree n h (mutate_loop h c p v)"
  using mutate_loop_length[of h c p v] by (simp add: agree_def mutate_loop_other)

lemma lookup_old:
  "closed n h \<Longrightarrow> agree n h h' \<Longrightarrow> val_below n w \<Longrightarrow> lookup_path h' w q = lookup_path h w q"
proof (induction q arbitrary: w)
  case Nil
  then show ?case by simp
next
  case (Cons k q)
  show ?case
  proof (cases w)
    case (Prim x)
    then show ?thesis by simp
  next
    case (Ref a)
    with Cons.prems have a: "a < n" by simp
    with Cons.prems have eq: "h' ! a = h ! a" and l: "a < length h" "a < length h'"
      and ob: "obj_below n (h ! a)"
      by (auto simp: agree_def closed_def)
    show ?thesis
    proof (cases "get_prop (h ! a) k")
      case None
      then show ?thesis using Ref eq l by simp
    next
      case (Some w')
      then have "val_below n w'" using ob get_prop_below by blast
      then show ?thesis using Ref eq l Some Cons.IH[OF Cons.prems(1,2)] by simp
    qed
  qed
qed

lemma lookup_copy:
  assumes "closed n h" "agree n h h'" "a < length h'" "b < n" "h' ! a = h ! b" "q \<noteq> []"
  shows "lookup_path h' (Ref a) q = lookup_path h (Ref b) q"
proof -
  from assms(6) obtain k ks where q: "q = k # ks" by (cases q) auto
  from assms have bl: "b < length h" and ob: "obj_below n (h ! b)" by (auto simp: closed_def)
  show ?thesis
  proof (cases "get_prop (h ! b) k")
    case None
    then show ?thesis using q assms bl by simp
  next
    case (Some w)
    then have "val_below n w" using ob get_prop_below by blast
    then show ?thesis using q assms bl Some lookup_old[OF assms(1,2)] by simp
  qed
qed


lemma closed_agree: "closed n h \<Longrightarrow> agree n h h' \<Longrightarrow> closed n h'"
  by (simp add: closed_def agree_def)

lemma lookup_cursor:
  "c < length h \<Longrightarrow> lookup_path h (Ref c) (k # q) =
     (case get_prop (h ! c) k of None \<Rightarrow> None | Some w \<Rightarrow> lookup_path h w q)"
  by simp

lemma lookup_from_leaf: "lookup_path h (Prim x) q = Some w \<Longrightarrow> q = [] \<and> w = Prim x"
  by (cases q) auto

lemma loop_post_leaf:
  assumes cl: "closed n h" and nc: "n \<le> c" and cl2: "c < length h" and ob: "obj_below n (h ! c)"
  shows "loop_post n h (h[c := set_prop leaf (Prim v) (h ! c)]) c [leaf] v"
proof -
  let ?h' = "h[c := set_prop leaf (Prim v) (h ! c)]"
  have ag: "agree n h ?h'" using cl nc by (simp add: agree_def closed_def)
  have a: "lookup_path ?h' (Ref c) [leaf] = Some (Prim v)"
    using cl2 by (simp add: get_prop_set_prop)
  have b: "lookup_path ?h' (Ref c) q = lookup_path h (Ref c) q" if d: "diverge [leaf] q" for q
  proof -
    from d obtain k' qs where q: "q = k' # qs" and ne: "k' \<noteq> leaf" by (cases q) auto
    show ?thesis
    proof (cases "get_prop (h ! c) k'")
      case None
      then show ?thesis using q ne cl2 by (simp add: get_prop_set_prop)
    next
      case (Some w)
      then have "val_below n w" using ob get_prop_below by blast
      then have "lookup_path ?h' w qs = lookup_path h w qs" by (rule lookup_old[OF cl ag])
      then show ?thesis using q ne cl2 Some by (simp add: get_prop_set_prop)
    qed
  qed
  have c: "\<exists>b. n \<le> b \<and> lookup_path ?h' (Ref c) q = Some (Ref b)" if "[leaf] = q @ k # ks" for q k ks
  proof -
    from that have "q = []" by (cases q) auto
    then show ?thesis using nc by simp
  qed
  show ?thesis unfolding loop_post_def using a b c by blast
qed

lemma loop_post_step:
  assumes cl: "closed n h" and nc: "n \<le> c" and cl2: "c < length h" and ob: "obj_below n (h ! c)"
    and gp: "get_prop (h ! c) seg = Some (Ref b)" and bn: "b < n"
    and h2: "h2 = (h @ [h ! b])[c := set_prop seg (Ref (length h)) (h ! c)]"
    and ag': "agree n h h'" and len': "length h2 \<le> length h'"
    and hc: "h' ! c = h2 ! c"
    and rest: "rest \<noteq> []"
    and post: "loop_post n h2 h' (length h) rest v"
  shows "loop_post n h h' c (seg # rest) v"
proof -
  let ?a = "length h"
  have ag2: "agree n h h2" using cl nc by (simp add: h2 agree_def closed_def nth_append)
  have a2: "h2 ! ?a = h ! b" using cl2 by (simp add: h2)
  have l2: "length h2 = Suc ?a" by (simp add: h2)
  have c2: "h2 ! c = set_prop seg (Ref ?a) (h ! c)" using cl2 by (simp add: h2 nth_append)
  have cl': "c < length h'" using len' l2 cl2 by simp
  have al': "?a < length h2" using l2 by simp
  have copy: "lookup_path h2 (Ref ?a) q = lookup_path h (Ref b) q" if "q \<noteq> []" for q
    using lookup_copy[OF cl ag2 al' bn a2 that] .
  have via: "lookup_path h' (Ref c) (seg # q) = lookup_path h' (Ref ?a) q" for q
    using cl' hc c2 by (simp add: get_prop_set_prop)
  have old_via: "lookup_path h (Ref c) (seg # q) = lookup_path h (Ref b) q" for q
    using cl2 gp by simp
  from post have pa: "lookup_path h' (Ref ?a) rest = Some (Prim v)"
    and pb: "\<And>q. diverge rest q \<Longrightarrow> lookup_path h' (Ref ?a) q = lookup_path h2 (Ref ?a) q"
    and pc: "\<And>q k ks. rest = q @ k # ks \<Longrightarrow> \<exists>b. n \<le> b \<and> lookup_path h' (Ref ?a) q = Some (Ref b)"
    unfolding loop_post_def by blast+
  have a: "lookup_path h' (Ref c) (seg # rest) = Some (Prim v)" using via pa by simp
  have b: "lookup_path h' (Ref c) q = lookup_path h (Ref c) q" if d: "diverge (seg # rest) q" for q
  proof -
    from d obtain k' qs where q: "q = k' # qs" and dd: "k' \<noteq> seg \<or> diverge rest qs"
      by (cases q) auto
    show ?thesis
    proof (cases "k' = seg")
      case True
      with dd have dr: "diverge rest qs" by simp
      then have "qs \<noteq> []" using rest by (cases rest; cases qs) auto
      then show ?thesis using q True via old_via pb[OF dr] copy by simp
    next
      case False
      show ?thesis
      proof (cases "get_prop (h ! c) k'")
        case None
        then show ?thesis using q False cl2 cl' hc c2 by (simp add: get_prop_set_prop)
      next
        case (Some w)
        then have "val_below n w" using ob get_prop_below by blast
        then have "lookup_path h' w qs = lookup_path h w qs" by (rule lookup_old[OF cl ag'])
        then show ?thesis using q False cl2 cl' hc c2 Some by (simp add: get_prop_set_prop)
      qed
    qed
  qed
  have c: "\<exists>b. n \<le> b \<and> lookup_path h' (Ref c) q = Some (Ref b)" if "seg # rest = q @ k # ks" for q k ks
  proof (cases q)
    case Nil
    then show ?thesis using nc by simp
  next
    case (Cons k' q')
    with that have "k' = seg" "rest = q' @ k # ks" by auto
    then show ?thesis using pc[of q' k ks] via Cons by simp
  qed
  show ?thesis unfolding loop_post_def using a b c by blast
qed

lemma mutate_loop_post:
  "closed n h \<Longrightarrow> n \<le> c \<Longrightarrow> c < length h \<Longrightarrow> obj_below n (h ! c) \<Longrightarrow> p \<noteq> [] \<Longrightarrow>
   lookup_path h (Ref c) p = Some (Prim old) \<Longrightarrow>
   loop_post n h (mutate_loop h c p v) c p v"
proof (induction h c p v arbitrary: old rule: mutate_loop.induct)
  case (1 h cursor v)
  then show ?case by simp
next
  case (2 h cursor leaf v)
  then show ?case by (simp add: loop_post_leaf)
next
  case (3 h c seg k rest v)
  let ?rest = "k # rest"
  from "3.prems" have cl: "closed n h" and nc: "n \<le> c" and cl2: "c < length h"
    and ob: "obj_below n (h ! c)" and lk: "lookup_path h (Ref c) (seg # ?rest) = Some (Prim old)"
    by simp_all
  from lk cl2 obtain w where gp0: "get_prop (h ! c) seg = Some w"
    and lw: "lookup_path h w ?rest = Some (Prim old)"
    by (auto split: option.splits)
  from lw obtain b where w: "w = Ref b" by (cases w) auto
  from gp0 w have gp: "get_prop (h ! c) seg = Some (Ref b)" by simp
  from ob gp have bn: "b < n" using get_prop_below by fastforce
  from cl bn have bl: "b < length h" and obb: "obj_below n (h ! b)" by (auto simp: closed_def)
  define h2 where "h2 = (h @ [h ! b])[c := set_prop seg (Ref (length h)) (h ! c)]"
  have unfold: "mutate_loop h c (seg # ?rest) v = mutate_loop h2 (length h) ?rest v"
    using gp bl cl2 by (simp add: Let_def h2_def nth_append)
  have ag2: "agree n h h2" using cl nc by (simp add: h2_def agree_def closed_def nth_append)
  have cl2': "closed n h2" using closed_agree[OF cl ag2] .
  have a2: "h2 ! length h = h ! b" using cl2 by (simp add: h2_def)
  have l2: "length h2 = Suc (length h)" by (simp add: h2_def)
  have lk2: "lookup_path h2 (Ref (length h)) ?rest = Some (Prim old)"
    using lookup_copy[OF cl ag2 _ bn a2, of ?rest] l2 lw w by simp
  have nl: "n \<le> length h" using cl by (simp add: closed_def)
  have h2s: "(h @ [spread h (get_prop (h ! c) seg)])
      [c := set_prop seg (Ref (length h)) ((h @ [spread h (get_prop (h ! c) seg)]) ! c)] = h2"
    using gp bl cl2 by (simp add: h2_def nth_append)
  have ob2: "obj_below n (h2 ! length h)" using a2 obb by simp
  have IH: "loop_post n h2 (mutate_loop h2 (length h) ?rest v) (length h) ?rest v"
    using "3.IH"[OF refl refl refl refl, unfolded h2s, OF cl2' nl _ ob2 _ lk2] l2 by simp
  let ?h' = "mutate_loop h2 (length h) ?rest v"
  have ag': "agree n h ?h'"
    using mutate_loop_agree[of n c h "seg # ?rest" v] nc nl unfold by simp
  have len': "length h2 \<le> length ?h'" by (rule mutate_loop_length)
  have hc: "?h' ! c = h2 ! c" using mutate_loop_other[of c h2 "length h" ?rest v] cl2 l2 by simp
  show ?case
    unfolding unfold
    by (rule loop_post_step[OF cl nc cl2 ob gp bn h2_def ag' len' hc _ IH]) simp
qed


lemma lookup_path_append:
  "lookup_path h w (q @ q') =
     (case lookup_path h w q of None \<Rightarrow> None | Some w' \<Rightarrow> lookup_path h w' q')"
proof (induction q arbitrary: w)
  case Nil
  then show ?case by simp
next
  case (Cons k q)
  then show ?case by (cases w) (auto split: option.splits)
qed

lemma path_cases:
  "q \<noteq> p \<Longrightarrow> diverge p q \<or> (\<exists>k ks. p = q @ k # ks) \<or> (\<exists>k ks. q = p @ k # ks)"
proof (induction p arbitrary: q)
  case Nil
  then show ?case by (cases q) auto
next
  case (Cons a p)
  show ?case
  proof (cases q)
    case Nil
    then show ?thesis by simp
  next
    case (Cons b q')
    then show ?thesis using Cons.IH[of q'] Cons.prems by auto
  qed
qed

lemma obj_below_mono: "obj_below n obj \<Longrightarrow> n \<le> m \<Longrightarrow> obj_below m obj"
proof -
  have "val_below n w \<Longrightarrow> n \<le> m \<Longrightarrow> val_below m w" for w by (cases w) auto
  then show "obj_below n obj \<Longrightarrow> n \<le> m \<Longrightarrow> obj_below m obj"
    by (auto simp: obj_below_def list_all_iff)
qed

lemma obj_below_set_prop:
  "obj_below n obj \<Longrightarrow> val_below n w \<Longrightarrow> obj_below n (set_prop k w obj)"
  by (induction obj) (auto simp: obj_below_def)

lemma obj_below_string_props: "obj_below n (string_props i cs)"
  by (induction cs arbitrary: i) (auto simp: obj_below_def)

lemma wf_heap_nth: "wf_heap h \<Longrightarrow> i < length h \<Longrightarrow> obj_below (length h) (h ! i)"
  by (simp add: wf_heap_def list_all_length)

lemma obj_below_spread: "wf_heap h \<Longrightarrow> obj_below (length h) (spread h x)"
proof (cases x)
  case None
  then show ?thesis by (simp add: obj_below_def)
next
  case (Some w)
  assume wf: "wf_heap h"
  show ?thesis
  proof (cases w)
    case (Prim pr)
    then show ?thesis using Some by (cases pr) (simp_all add: obj_below_string_props, simp add: obj_below_def)
  next
    case (Ref a)
    then show ?thesis using Some wf by (simp add: wf_heap_nth) (simp add: obj_below_def)
  qed
qed

lemma wf_heap_update:
  "wf_heap h \<Longrightarrow> c < length h \<Longrightarrow> val_below (length h) w \<Longrightarrow>
   wf_heap (h[c := set_prop k w (h ! c)])"
  by (auto simp: wf_heap_def list_all_length nth_list_update obj_below_set_prop)

lemma wf_heap_snoc: "wf_heap h \<Longrightarrow> obj_below (length h) obj \<Longrightarrow> wf_heap (h @ [obj])"
  by (auto simp: wf_heap_def list_all_length nth_append intro: obj_below_mono)

lemma wf_heap_mutate_loop: "wf_heap h \<Longrightarrow> c < length h \<Longrightarrow> wf_heap (mutate_loop h c p v)"
proof (induction h c p v rule: mutate_loop.induct)
  case (1 h cursor v)
  then show ?case by (simp add: wf_heap_update)
next
  case (2 h cursor leaf v)
  then show ?case by (simp add: wf_heap_update)
next
  case (3 h c seg k rest v)
  let ?child = "spread h (get_prop (h ! c) seg)"
  have w1: "wf_heap (h @ [?child])" using 3(2) by (simp add: wf_heap_snoc obj_below_spread)
  have "wf_heap ((h @ [?child])[c := set_prop seg (Ref (length h)) ((h @ [?child]) ! c)])"
    using wf_heap_update[OF w1, of c "Ref (length h)" seg] 3(3) by simp
  then show ?case using 3(1)[OF refl refl refl refl] by (simp add: Let_def)
qed

lemma wf_closed: "wf_heap h \<Longrightarrow> closed (length h) h"
  by (simp add: closed_def wf_heap_nth)

lemma agree_take: "agree (length h) h h' \<Longrightarrow> take (length h) h' = h"
  by (simp add: agree_def list_eq_iff_nth_eq)


text \<open>
  Claim C4. For every non-empty path \<open>p\<close> that addresses a leaf of the draft and
  every value \<open>v\<close>, \<open>mutateDraft p v\<close> changes only the leaf at \<open>p\<close>. After the
  call the leaf at \<open>p\<close> holds \<open>v\<close>; every other path addresses a leaf with some value
  after the call exactly when it did before; a path that diverges from \<open>p\<close> reads the
  very same value as before, object references included, so untouched subtrees are
  shared; every node on the way to the leaf is a newly allocated object; no object that
  existed before is written, so nothing that is read through an old reference (the
  persisted configuration, the previous draft) has changed; and DirtyFlag is true. The
  store stays well formed. Well-formedness of the store is its representation
  invariant (an object refers to allocated objects only); it holds in every reachable
  configuration, as the last section shows.
\<close>

theorem mutateDraft_changes_only_leaf:
  assumes wf: "wf_heap (store s)" and ne: "p \<noteq> []"
    and leaf: "draft_lookup s p = Some (Prim old)"
    and s': "s' = mutateDraft p v s"
  shows "draft_lookup s' p = Some (Prim v) \<and>
    (\<forall>q x. q \<noteq> p \<longrightarrow>
       (draft_lookup s' q = Some (Prim x)) = (draft_lookup s q = Some (Prim x))) \<and>
    (\<forall>q. diverge p q \<longrightarrow> draft_lookup s' q = draft_lookup s q) \<and>
    (\<forall>q k ks. p = q @ k # ks \<longrightarrow>
       (\<exists>b. length (store s) \<le> b \<and> draft_lookup s' q = Some (Ref b))) \<and>
    take (length (store s)) (store s') = store s \<and>
    (\<forall>a q. a < length (store s) \<longrightarrow>
       lookup_path (store s') (Ref a) q = lookup_path (store s) (Ref a) q) \<and>
    settings s' = settings s \<and> settingsDirty s' \<and> wf_heap (store s')"
proof -
  let ?h = "store s" and ?n = "length (store s)"
  from leaf obtain r where dr: "settingsDraft s = Some r"
    and lk: "lookup_path ?h (Ref r) p = Some (Prim old)"
    by (auto simp: draft_lookup_def split: option.splits)
  from ne lk have rl: "r < ?n" by (cases p) (auto split: if_splits)
  define h1 where "h1 = ?h @ [?h ! r]"
  define h' where "h' = mutate_loop h1 ?n p v"
  have upd: "draft_updater p v ?h (Some r) = (h', Some ?n)"
    using rl by (simp add: draft_updater_def Let_def h1_def h'_def)
  have st: "store s' = h'" and dr': "settingsDraft s' = Some ?n"
    and pers: "settings s' = settings s" and dirty: "settingsDirty s'"
    using upd dr by (simp_all add: s' mutateDraft_def)
  have cl: "closed ?n ?h" using wf by (rule wf_closed)
  have ag1: "agree ?n ?h h1" by (simp add: agree_def h1_def nth_append)
  have cl1: "closed ?n h1" using closed_agree[OF cl ag1] .
  have l1: "?n < length h1" by (simp add: h1_def)
  have c1: "h1 ! ?n = ?h ! r" by (simp add: h1_def)
  have ob1: "obj_below ?n (h1 ! ?n)" using c1 wf rl by (simp add: wf_heap_nth)
  have copy: "lookup_path h1 (Ref ?n) q = lookup_path ?h (Ref r) q" if "q \<noteq> []" for q
    using lookup_copy[OF cl ag1 l1 rl c1 that] .
  have lk1: "lookup_path h1 (Ref ?n) p = Some (Prim old)" using copy[OF ne] lk by simp
  have post: "loop_post ?n h1 h' ?n p v"
    unfolding h'_def by (rule mutate_loop_post[OF cl1 order_refl l1 ob1 ne lk1])
  have ag': "agree ?n h1 h'"
    unfolding h'_def using mutate_loop_agree[of ?n ?n h1 p v] l1 by simp
  have ag: "agree ?n ?h h'" using ag1 ag' by (simp add: agree_def)
  have new_p: "draft_lookup s' p = Some (Prim v)"
    using post by (simp add: loop_post_def draft_lookup_def st dr')
  have dl': "draft_lookup s' q = lookup_path h' (Ref ?n) q" for q
    by (simp add: draft_lookup_def st dr')
  have dl: "draft_lookup s q = lookup_path ?h (Ref r) q" for q
    by (simp add: draft_lookup_def dr)
  have div: "draft_lookup s' q = draft_lookup s q" if d: "diverge p q" for q
  proof -
    from d have "q \<noteq> []" by (cases p; cases q) auto
    moreover from post d have "lookup_path h' (Ref ?n) q = lookup_path h1 (Ref ?n) q"
      by (simp add: loop_post_def)
    ultimately show ?thesis using copy by (simp add: dl dl')
  qed
  have anc: "\<exists>b. ?n \<le> b \<and> draft_lookup s' q = Some (Ref b)" if "p = q @ k # ks" for q k ks
    using post that unfolding loop_post_def dl' by blast
  have leaves: "(draft_lookup s' q = Some (Prim x)) = (draft_lookup s q = Some (Prim x))"
    if qp: "q \<noteq> p" for q x
  proof -
    from path_cases[OF qp]
    consider "diverge p q" | k ks where "p = q @ k # ks" | k ks where "q = p @ k # ks"
      by blast
    then show ?thesis
    proof cases
      case 1
      then show ?thesis by (simp add: div)
    next
      case 2
      from anc[OF 2] have n: "draft_lookup s' q \<noteq> Some (Prim x)" by auto
      from lk 2 have "lookup_path ?h (Ref r) q \<noteq> Some (Prim x)"
        by (auto simp: lookup_path_append split: option.splits)
      then show ?thesis using n by (simp add: dl)
    next
      case 3
      have "draft_lookup s' q = None"
        using new_p by (simp add: 3 dl' lookup_path_append)
      moreover have "draft_lookup s q = None"
        using lk by (simp add: 3 dl lookup_path_append)
      ultimately show ?thesis by simp
    qed
  qed
  have keep: "take ?n (store s') = ?h" using agree_take[OF ag] by (simp add: st)
  have olds: "lookup_path (store s') (Ref a) q = lookup_path ?h (Ref a) q" if "a < ?n" for a q
    using lookup_old[OF cl ag, of "Ref a" q] that by (simp add: st)
  have wf1: "wf_heap h1" unfolding h1_def using wf rl by (simp add: wf_heap_snoc wf_heap_nth)
  have wf': "wf_heap (store s')"
    unfolding st h'_def using wf_heap_mutate_loop[OF wf1 l1] .
  show ?thesis using new_p leaves div anc keep olds pers dirty wf' by blast
qed

theorem mutateDraft_changes_only_leaf_witness:
  "wf_heap (store loaded_state) \<and>
   draft_lookup loaded_state [''proton'', ''defaultVersion''] = Some (Prim (PStr ''GE-1'')) \<and>
   draft_lookup edited_state [''proton'', ''defaultVersion''] = Some (Prim (PStr ''GE-2'')) \<and>
   draft_lookup edited_state [''proton'', ''compatdataPath''] =
     draft_lookup loaded_state [''proton'', ''compatdataPath''] \<and>
   draft_lookup edited_state [''localGamesPath''] = draft_lookup loaded_state [''localGamesPath''] \<and>
   take 2 (store edited_state) = store loaded_state \<and>
   lookup_path (store edited_state) (Ref 1) [''proton'', ''defaultVersion''] =
     Some (Prim (PStr ''GE-1'')) \<and>
   settings edited_state = settings loaded_state \<and>
   settingsDirty edited_state \<and> wf_heap (store edited_state)"
proof -
  let ?p = "[''proton'', ''defaultVersion'']"
  have wf: "wf_heap (store loaded_state)"
    by (simp add: loaded_state_eq wf_heap_def obj_below_def)
  have ne: "?p \<noteq> []" by simp
  have leaf: "draft_lookup loaded_state ?p = Some (Prim (PStr ''GE-1''))"
    by (simp add: loaded_state_eq draft_lookup_def get_prop_def)
  have len: "length (store loaded_state) = 2" by (simp add: loaded_state_eq)
  have old: "lookup_path (store loaded_state) (Ref 1) ?p = Some (Prim (PStr ''GE-1''))"
    by (simp add: loaded_state_eq get_prop_def)
  note t = mutateDraft_changes_only_leaf[OF wf ne leaf edited_state_def]
  from t have 1: "draft_lookup edited_state ?p = Some (Prim (PStr ''GE-2''))" by blast
  from t have d: "\<And>q. diverge ?p q \<Longrightarrow> draft_lookup edited_state q = draft_lookup loaded_state q"
    by blast
  have 2: "draft_lookup edited_state [''proton'', ''compatdataPath''] =
      draft_lookup loaded_state [''proton'', ''compatdataPath'']"
    by (rule d) simp
  have 3: "draft_lookup edited_state [''localGamesPath''] =
      draft_lookup loaded_state [''localGamesPath'']"
    by (rule d) simp
  from t len have 4: "take 2 (store edited_state) = store loaded_state" by simp
  from t len have "\<And>a q. a < 2 \<Longrightarrow>
      lookup_path (store edited_state) (Ref a) q = lookup_path (store loaded_state) (Ref a) q"
    by simp
  from this[of 1 ?p] old
  have 5: "lookup_path (store edited_state) (Ref 1) ?p = Some (Prim (PStr ''GE-1''))" by simp
  from t have 6: "settings edited_state = settings loaded_state"
    and 7: "settingsDirty edited_state" and 8: "wf_heap (store edited_state)"
    by blast+
  show ?thesis using wf leaf 1 2 3 4 5 6 7 8 by blast
qed


section \<open>The library snapshot\<close>

text \<open>
  Claim C7. If \<open>load_games\<close> fails during a refresh, the snapshot held before (the
  games and their metadata) is retained unchanged, by the first part of \<open>loadGames\<close>
  as well as by the second, and the global error is set. A refresh that succeeds with
  zero games is a snapshot without an error: the metadata is set, so that the header
  reads \<open>Library (0)\<close>, where before any data has arrived the metadata is unset and
  the header reads \<open>Library\<close>.
\<close>

theorem refresh_failure_keeps_snapshot:
  "games (loadGames_start s) = games s \<and> gamesMeta (loadGames_start s) = gamesMeta s \<and>
   games (loadGames_resume fe (Rejected e) s) = games s \<and>
   gamesMeta (loadGames_resume fe (Rejected e) s) = gamesMeta s \<and>
   globalError (loadGames_resume fe (Rejected e) s) = Some (load_failed_message fe) \<and>
   (payload_games payload = [] \<longrightarrow>
      games (loadGames_resume fe (Resolved payload) (loadGames_start s)) = [] \<and>
      gamesMeta (loadGames_resume fe (Resolved payload) (loadGames_start s)) =
        Some \<lparr>source = payload_source payload, refreshedAt = payload_refreshedAt payload\<rparr> \<and>
      globalError (loadGames_resume fe (Resolved payload) (loadGames_start s)) = None \<and>
      library_title (loadGames_resume fe (Resolved payload) (loadGames_start s)) =
        ''Library (0)'' \<and>
      empty_library_shown (loadGames_resume fe (Resolved payload) (loadGames_start s))) \<and>
   gamesMeta init_state = None \<and> library_title init_state = ''Library''"
  by (simp add: loadGames_start_def loadGames_resume_def emit_def library_title_def
      empty_library_shown_def init_state_def)

theorem refresh_failure_keeps_snapshot_witness:
  "payload_games empty_payload = [] \<and>
   gamesMeta (loadGames_resume Part000 (Resolved empty_payload) (loadGames_start loaded_state)) =
      Some \<lparr>source = ''remote'', refreshedAt = ''2024-01-01''\<rparr> \<and>
   globalError
     (loadGames_resume Part000 (Resolved empty_payload) (loadGames_start loaded_state)) = None \<and>
   library_title
     (loadGames_resume Part000 (Resolved empty_payload) (loadGames_start loaded_state)) =
      ''Library (0)''"
proof -
  have a: "payload_games empty_payload = []" by (simp add: empty_payload_def)
  show ?thesis
    using a refresh_failure_keeps_snapshot[of loaded_state Part000 None empty_payload]
    by (simp add: empty_payload_def)
qed

section \<open>The dispatch protocol\<close>

subsection \<open>What a handler does to the busy map and to the trace\<close>

lemma busyMap_emit [simp]: "busyMap (emit e s) = busyMap s"
  by (simp add: emit_def)

lemma trace_emit [simp]: "trace (emit e s) = trace s @ [e]"
  by (simp add: emit_def)

lemma busy_markBusy:
  "get_prop (busyMap (markBusy k b s)) k' = (if k' = k then Some b else get_prop (busyMap s) k')"
  by (simp add: markBusy_def get_prop_set_prop)

lemma trace_markBusy [simp]: "trace (markBusy k b s) = trace s @ [SetBusy k b]"
  by (simp add: markBusy_def)

lemma busyMap_loadGames_start [simp]: "busyMap (loadGames_start s) = busyMap s"
  by (simp add: loadGames_start_def)

lemma trace_loadGames_start [simp]: "trace (loadGames_start s) = trace s @ [Call LoadGamesCall]"
  by (simp add: loadGames_start_def)

lemma busyMap_toast_steps [simp]: "busyMap (toast_steps t r s) = busyMap s"
  by (simp add: toast_steps_def split: outcome.splits option.splits)

lemma busyMap_callWithToaster [simp]:
  "busyMap (fst (callWithToaster_resume d out s)) = busyMap s"
  by (simp add: callWithToaster_resume_def split: outcome.splits)

lemma snd_callWithToaster [simp]: "snd (callWithToaster_resume d out s) = out"
  by (simp add: callWithToaster_resume_def split: outcome.splits)

text \<open>The toasts of a dispatch, by operation and outcome.\<close>

lemma trace_callWithToaster:
  "trace (fst (callWithToaster_resume d out s)) =
     trace s @ [Toast (case out of Resolved result \<Rightarrow> result_toast d result
                      | Rejected e \<Rightarrow> \<lparr>title = ''Deckyfin'',
                           body = (case e of Some m \<Rightarrow> m | None \<Rightarrow> ''Operation failed''),
                           critical = True\<rparr>)]"
  by (simp add: callWithToaster_resume_def result_toast_def split: outcome.splits)

lemma trace_toast_steps:
  "\<exists>ts. trace (toast_steps t r s) = trace s @ map Toast ts"
proof (cases "trace (toast_steps t r s) = trace s")
  case True
  then have "trace (toast_steps t r s) = trace s @ map Toast []" by simp
  then show ?thesis by blast
next
  case False
  then obtain x where "trace (toast_steps t r s) = trace s @ map Toast [x]"
    by (auto simp: toast_steps_def split: outcome.splits option.splits if_splits)
  then show ?thesis by blast
qed

lemma trace_callWithToaster_ex:
  "\<exists>ts. trace (fst (callWithToaster_resume d out s)) = trace s @ map Toast ts"
proof -
  have "trace (fst (callWithToaster_resume d out s)) = trace s @ map Toast
      [case out of Resolved result \<Rightarrow> result_toast d result
                      | Rejected e \<Rightarrow> \<lparr>title = ''Deckyfin'',
                           body = (case e of Some m \<Rightarrow> m | None \<Rightarrow> ''Operation failed''),
                           critical = True\<rparr>]"
    by (simp add: trace_callWithToaster)
  then show ?thesis by blast
qed

lemma shape_plain:
  "\<exists>mid. loadGames_start (markBusy k False (fst (callWithToaster_resume d out s))) =
        loadGames_start (markBusy k False mid) \<and>
      busyMap mid = busyMap s \<and> (\<exists>ts. trace mid = trace s @ map Toast ts)"
  using trace_callWithToaster_ex[of d out s]
  by (intro exI[of _ "fst (callWithToaster_resume d out s)"]) simp

lemma shape_steps:
  "\<exists>mid. loadGames_start (markBusy k False
          (toast_steps t r (fst (callWithToaster_resume d out s)))) =
        loadGames_start (markBusy k False mid) \<and>
      busyMap mid = busyMap s \<and> (\<exists>ts. trace mid = trace s @ map Toast ts)"
proof -
  let ?s1 = "fst (callWithToaster_resume d out s)"
  from trace_callWithToaster_ex[of d out s] obtain ts1
    where 1: "trace ?s1 = trace s @ map Toast ts1" by blast
  from trace_toast_steps[of t r ?s1] obtain ts2
    where 2: "trace (toast_steps t r ?s1) = trace ?s1 @ map Toast ts2" by blast
  have "trace (toast_steps t r ?s1) = trace s @ map Toast (ts1 @ ts2)"
    using 1 2 by simp
  then have "\<exists>ts. trace (toast_steps t r ?s1) = trace s @ map Toast ts" by blast
  then show ?thesis
    by (intro exI[of _ "toast_steps t r ?s1"]) simp
qed

lemma op_resume_shape:
  "\<exists>mid. fst (op_resume opn out s) = loadGames_start (markBusy (op_key opn) False mid) \<and>
      busyMap mid = busyMap s \<and> (\<exists>ts. trace mid = trace s @ map Toast ts)"
proof (cases opn)
  case (Download nm)
  then show ?thesis using shape_plain by (simp add: handleDownload_resume_def split_def)
next
  case (Setup appid nm)
  then show ?thesis using shape_plain by (simp add: handleSetup_resume_def split_def)
next
  case (Install nm)
  then show ?thesis using shape_steps by (simp add: handleInstall_resume_def split_def Let_def)
next
  case (Remove nm)
  then show ?thesis using shape_steps by (simp add: handleRemove_resume_def split_def Let_def)
next
  case (Sync nm)
  then show ?thesis using shape_plain by (simp add: handleSync_resume_def split_def)
next
  case SyncAll
  then show ?thesis using shape_plain by (simp add: handleSyncAll_resume_def split_def)
qed

lemma op_resume_busy:
  "get_prop (busyMap (fst (op_resume opn out s))) k =
     (if k = op_key opn then Some False else get_prop (busyMap s) k)"
proof -
  from op_resume_shape[of opn out s] obtain mid where
    "fst (op_resume opn out s) = loadGames_start (markBusy (op_key opn) False mid)"
    "busyMap mid = busyMap s" by blast
  then show ?thesis by (simp add: busy_markBusy)
qed

lemma op_resume_snd: "snd (op_resume opn out s) = settled out"
  by (cases opn) (simp_all add: handler_resume_defs split_def Let_def)

lemma op_start_busy:
  "get_prop (busyMap (op_start opn s)) k =
     (if k = op_key opn then Some True else get_prop (busyMap s) k)"
  by (cases opn) (simp_all add: handler_start_defs callWithToaster_start_def busy_markBusy)


lemma trace_since_append: "trace s' = trace s @ xs \<Longrightarrow> trace_since s s' = xs"
  by (simp add: trace_since_def)

lemma trace_op_start: "trace (op_start opn s) = trace s @ [SetBusy (op_key opn) True, Call
   (case opn of Download nm \<Rightarrow> DownloadGameCall nm | Setup appid nm \<Rightarrow> SetupPrefixCall appid
    | Install nm \<Rightarrow> InstallGameCall nm | Remove nm \<Rightarrow> RemoveGameCall nm
    | Sync nm \<Rightarrow> SyncGameCall nm | SyncAll \<Rightarrow> SyncAllCall)]"
  by (cases opn) (simp_all add: handler_start_defs callWithToaster_start_def)

lemma filter_refresh_toasts [simp]: "filter (\<lambda>e. e = Call LoadGamesCall) (map Toast ts) = []"
  by (induction ts) auto

lemma toasts_of_append: "toasts_of (xs @ ys) = toasts_of xs @ toasts_of ys"
  by (induction xs rule: toasts_of.induct) auto

lemma busyMap_op_start: "busyMap (op_start opn s) = set_prop (op_key opn) True (busyMap s)"
  by (cases opn) (simp_all add: handler_start_defs callWithToaster_start_def markBusy_def)

lemma busyMap_op_resume:
  "busyMap (fst (op_resume opn out s)) = set_prop (op_key opn) False (busyMap s)"
proof -
  from op_resume_shape[of opn out s] obtain mid where
    "fst (op_resume opn out s) = loadGames_start (markBusy (op_key opn) False mid)"
    "busyMap mid = busyMap s" by blast
  then show ?thesis by (simp add: markBusy_def)
qed

lemma busyMap_mutateDraft [simp]: "busyMap (mutateDraft p v s) = busyMap s"
  by (simp add: mutateDraft_def split_def Let_def)

lemma busyMap_persistSettings_start [simp]: "busyMap (fst (persistSettings_start s)) = busyMap s"
  by (simp add: persistSettings_start_def split: option.splits)

lemma busyMap_loadSettings_resume [simp]: "busyMap (loadSettings_resume out s) = busyMap s"
  by (simp add: loadSettings_resume_def split_def Let_def split: outcome.splits)

lemma busyMap_persistSettings_resume [simp]: "busyMap (persistSettings_resume out s) = busyMap s"
  by (simp add: persistSettings_resume_def split_def Let_def split: outcome.splits)

lemma busyMap_loadGames_resume [simp]: "busyMap (loadGames_resume fe out s) = busyMap s"
  by (simp add: loadGames_resume_def split: outcome.splits)

lemma settings_effect_busy [simp]: "busyMap (fst (settings_effect c)) = busyMap (fst c)"
  by (simp add: settings_effect_def split: option.splits)

lemma pending_keys_append [simp]: "pending_keys (ts @ us) = pending_keys ts @ pending_keys us"
  by (simp add: pending_keys_def map_filter_def)

lemma pending_keys_Cons:
  "pending_keys (t # ts) =
     (case task_key t of None \<Rightarrow> pending_keys ts | Some k \<Rightarrow> k # pending_keys ts)"
  by (simp add: pending_keys_def map_filter_def split: option.splits)

lemma pending_keys_iff: "k \<in> set (pending_keys ts) \<longleftrightarrow> (\<exists>t \<in> set ts. task_key t = Some k)"
proof (induction ts)
  case Nil
  then show ?case by (simp add: pending_keys_def map_filter_def)
next
  case (Cons t ts)
  then show ?case by (auto simp: pending_keys_Cons split: option.splits)
qed

lemma pending_keys_remove1_other:
  "task_key t = None \<Longrightarrow> pending_keys (remove1 t ts) = pending_keys ts"
  by (induction ts) (auto simp: pending_keys_def map_filter_def)

lemma pending_keys_remove1_op:
  assumes "k \<in> set (pending_keys ts)" and "k \<noteq> op_key opn"
  shows "k \<in> set (pending_keys (remove1 (AwaitOp opn) ts))"
proof -
  from assms(1) obtain t where t: "t \<in> set ts" "task_key t = Some k"
    by (auto simp: pending_keys_iff)
  with assms(2) have "t \<noteq> AwaitOp opn" by auto
  with t have "t \<in> set (remove1 (AwaitOp opn) ts)" by simp
  with t show ?thesis by (auto simp: pending_keys_iff)
qed

lemma settings_effect_pending [simp]: "pending_keys (snd (settings_effect c)) = pending_keys (snd c)"
  by (simp add: settings_effect_def pending_keys_def map_filter_def split: option.splits)

lemma pending_keys_save [simp]:
  "pending_keys (case snd (persistSettings_start s) of None \<Rightarrow> [] | Some t \<Rightarrow> [t]) = []"
  by (simp add: persistSettings_start_def pending_keys_def map_filter_def split: option.splits)

subsection \<open>The busy map along an execution\<close>

lemma step_keeps_busy_in_flight:
  assumes st: "step fe (s, ts) (s', ts')"
    and inv: "\<forall>k. busy_at s k \<longrightarrow> k \<in> set (pending_keys ts)"
  shows "\<forall>k. busy_at s' k \<longrightarrow> k \<in> set (pending_keys ts')"
  using st
proof (cases rule: step.cases)
  case (dispatch opn)
  then show ?thesis using inv
    by (auto simp: busy_at_def op_start_busy pending_keys_def map_filter_def)
next
  case (op_settled opn out)
  then show ?thesis using inv
    by (auto simp: busy_at_def op_resume_busy pending_keys_remove1_op)
next
  case (settings_loaded reply)
  then have "s' = fst (settings_effect (loadSettings_resume (Resolved reply) s,
      remove1 AwaitGetSettings ts))"
    and "ts' = snd (settings_effect (loadSettings_resume (Resolved reply) s,
      remove1 AwaitGetSettings ts))"
    by (simp_all add: prod_eq_iff)
  then show ?thesis using inv by (simp add: busy_at_def pending_keys_remove1_other)
next
  case (settings_saved reply)
  then have "s' = fst (settings_effect (persistSettings_resume (Resolved reply) s,
      remove1 AwaitSaveSettings ts))"
    and "ts' = snd (settings_effect (persistSettings_resume (Resolved reply) s,
      remove1 AwaitSaveSettings ts))"
    by (simp_all add: prod_eq_iff)
  then show ?thesis using inv by (simp add: busy_at_def pending_keys_remove1_other)
qed (use inv in \<open>auto simp: busy_at_def pending_keys_remove1_other
       pending_keys_def[of "[AwaitLoadGames]"] map_filter_def\<close>)

lemma step_keeps_keys:
  assumes st: "step fe (s, ts) (s', ts')"
  shows "fst ` set (busyMap s) \<subseteq> fst ` set (busyMap s')"
  using st
proof (cases rule: step.cases)
  case (settings_loaded reply)
  then have "s' = fst (settings_effect (loadSettings_resume (Resolved reply) s,
      remove1 AwaitGetSettings ts))"
    by (simp add: prod_eq_iff)
  then show ?thesis by simp
next
  case (settings_saved reply)
  then have "s' = fst (settings_effect (persistSettings_resume (Resolved reply) s,
      remove1 AwaitSaveSettings ts))"
    by (simp add: prod_eq_iff)
  then show ?thesis by simp
qed (auto simp: busyMap_op_start busyMap_op_resume keys_set_prop)

lemma reachable_busy_in_flight:
  "reachable fe c \<Longrightarrow> \<forall>k. busy_at (fst c) k \<longrightarrow> k \<in> set (pending_keys (snd c))"
proof (induction rule: reachable.induct)
  case at_mount
  then show ?case
    by (simp add: mounted_def busy_at_def loadSettings_start_def init_state_def get_prop_def)
next
  case (after_step c c')
  then show ?case using step_keeps_busy_in_flight[of fe "fst c" "snd c" "fst c'" "snd c'"]
    by simp
qed

lemma reachable_sync_started: "reachable IndexTsx sync_started"
proof -
  have "step IndexTsx (fst mounted, snd mounted) sync_started"
    unfolding sync_started_def by (rule step.dispatch) simp
  then show ?thesis using reachable.after_step[OF reachable.at_mount] by simp
qed

lemma reachable_sync_settled: "reachable IndexTsx sync_settled"
proof -
  have "AwaitOp (Sync ''Alpha'') \<in> set (snd sync_started)" by (simp add: sync_started_def)
  then have "step IndexTsx (fst sync_started, snd sync_started) sync_settled"
    unfolding sync_settled_def by (rule step.op_settled)
  then show ?thesis using reachable.after_step[OF reachable_sync_started] by simp
qed

lemma busyMap_sync_started: "busyMap (fst sync_started) = [(''sync-Alpha'', True)]"
  using busyMap_op_start[of "Sync ''Alpha''" "fst mounted"]
  by (simp add: sync_started_def mounted_def loadSettings_start_def init_state_def)

lemma flags_markBusy [simp]:
  "gamesLoading (markBusy k b s) = gamesLoading s"
  "savingSettings (markBusy k b s) = savingSettings s"
  by (simp_all add: markBusy_def emit_def)

lemma flags_emit [simp]:
  "gamesLoading (emit e s) = gamesLoading s" "savingSettings (emit e s) = savingSettings s"
  by (simp_all add: emit_def)

lemma card_busy_emit [simp]: "card_busy (emit e s) g = card_busy s g"
  by (simp add: card_busy_def busy_at_def disableActions_def)

lemma card_busy_unrelated_key:
  assumes "k \<noteq> ''download-'' @ name g" "k \<noteq> ''setup-'' @ show_int (steam_appid g)"
    "k \<noteq> ''sync-'' @ name g"
  shows "card_busy (markBusy k b s) g = card_busy s g"
  using assms
  by (simp add: card_busy_def busy_at_def busy_markBusy disableActions_def)


subsection \<open>The claims about dispatch\<close>

text \<open>
  Claim C2 (amended). The claim reads: at every point the BusyMap contains only
  \<open>true\<close> entries, for operations in flight, and a key is removed on completion
  rather than set to false. \<open>markBusy(key, false)\<close> writes \<open>false\<close> under the key
  and nothing ever deletes an entry. What holds in every reachable configuration is:
  every key that the map sends to \<open>true\<close> is the key of an operation in flight; a
  dispatch that settles sets its key to \<open>false\<close> and leaves the other entries as they
  are; and no step takes a key out of the map.
\<close>

theorem busy_entries_are_in_flight:
  assumes "reachable fe (s, ts)"
  shows "(\<forall>k. busy_at s k \<longrightarrow> k \<in> set (pending_keys ts)) \<and>
     (\<forall>opn out. busyMap (fst (op_resume opn out s)) = set_prop (op_key opn) False (busyMap s)) \<and>
     (\<forall>opn out. get_prop (busyMap (fst (op_resume opn out s))) (op_key opn) = Some False) \<and>
     (\<forall>s' ts'. step fe (s, ts) (s', ts') \<longrightarrow> fst ` set (busyMap s) \<subseteq> fst ` set (busyMap s'))"
  using reachable_busy_in_flight[OF assms] step_keeps_keys
  by (simp add: busyMap_op_resume get_prop_set_prop)

theorem busy_entries_are_in_flight_witness:
  "reachable IndexTsx sync_started \<and> busy_at (fst sync_started) ''sync-Alpha'' \<and>
   ''sync-Alpha'' \<in> set (pending_keys (snd sync_started)) \<and>
   busyMap (fst (op_resume (Sync ''Alpha'') (Resolved sample_result) (fst sync_started))) =
     [(''sync-Alpha'', False)]"
proof -
  have r: "reachable IndexTsx (fst sync_started, snd sync_started)"
    using reachable_sync_started by simp
  have m: "busyMap (fst sync_started) = [(''sync-Alpha'', True)]"
    by (rule busyMap_sync_started)
  have b: "busy_at (fst sync_started) ''sync-Alpha''"
    by (simp add: busy_at_def m get_prop_def)
  note t = busy_entries_are_in_flight[OF r]
  from t b have 1: "''sync-Alpha'' \<in> set (pending_keys (snd sync_started))" by blast
  from t have "busyMap (fst (op_resume (Sync ''Alpha'') (Resolved sample_result) (fst sync_started))) =
     set_prop (op_key (Sync ''Alpha'')) False (busyMap (fst sync_started))" by blast
  then have 2: "busyMap (fst (op_resume (Sync ''Alpha'') (Resolved sample_result) (fst sync_started))) =
     [(''sync-Alpha'', False)]" by (simp add: m)
  show ?thesis using reachable_sync_started b 1 2 by simp
qed


text \<open>
  After a save sync of Alpha has resolved, the map holds the entry
  \<open>sync-Alpha: false\<close> and no operation is in flight.
\<close>

theorem busy_entry_false_after_sync:
  "reachable IndexTsx sync_settled \<and> busyMap (fst sync_settled) = [(''sync-Alpha'', False)] \<and>
   pending_keys (snd sync_settled) = []"
proof -
  have 1: "busyMap (fst sync_settled) = [(''sync-Alpha'', False)]"
    using busyMap_op_resume[of "Sync ''Alpha''" "Resolved sample_result" "fst sync_started"]
    by (simp add: sync_settled_def busyMap_sync_started)
  have 2: "pending_keys (snd sync_settled) = []"
    by (simp add: sync_settled_def sync_started_def mounted_def pending_keys_def map_filter_def)
  show ?thesis using reachable_sync_settled 1 2 by simp
qed


text \<open>
  Claim C3. For every operation and every way its remote call ends (a result, also
  one that reports a failure, or a thrown error), once the handler has run to its end
  the operation's key is not busy: the map sends it to \<open>false\<close>. That includes the
  path on which \<open>callWithToaster\<close> throws the error again, where the handler's own
  promise is rejected with that error. Before that, the dispatch had marked the key.
\<close>

theorem dispatch_settled_not_busy:
  "busy_at (op_start opn s) (op_key opn) \<and>
   \<not> busy_at (fst (op_resume opn out s')) (op_key opn) \<and>
   get_prop (busyMap (fst (op_resume opn out s'))) (op_key opn) = Some False \<and>
   \<not> busy_at (fst (op_resume opn (Rejected e) s')) (op_key opn) \<and>
   snd (op_resume opn (Rejected e) s') = Rejected e"
  by (simp add: busy_at_def op_start_busy op_resume_busy op_resume_snd settled_def)

theorem dispatch_settled_not_busy_witness:
  "busy_at (op_start (Sync ''Alpha'') loaded_state) ''sync-Alpha'' \<and>
   \<not> busy_at (fst (op_resume (Sync ''Alpha'') (Resolved (sample_result\<lparr>ok := False\<rparr>))
                   (op_start (Sync ''Alpha'') loaded_state))) ''sync-Alpha'' \<and>
   \<not> busy_at (fst (op_resume (Sync ''Alpha'') (Rejected (Some ''timeout''))
                   (op_start (Sync ''Alpha'') loaded_state))) ''sync-Alpha'' \<and>
   snd (op_resume (Sync ''Alpha'') (Rejected (Some ''timeout''))
          (op_start (Sync ''Alpha'') loaded_state)) = Rejected (Some ''timeout'')"
  using dispatch_settled_not_busy[of "Sync ''Alpha''" loaded_state
          "Resolved (sample_result\<lparr>ok := False\<rparr>)" "op_start (Sync ''Alpha'') loaded_state"
          "Some ''timeout''"]
  by simp


text \<open>
  Claim C8. For every dispatch and every outcome of its call, the part of the handler
  that runs after the call has settled issues its toasts, then unmarks the key, then
  calls \<open>loadGames\<close> once, in that order and with nothing after it: the trace grows by
  toasts followed by exactly \<open>markBusy(key, false)\<close> and one \<open>load_games\<close> call. So
  a completed dispatch raises the number of refreshes by exactly one, and starting a
  dispatch does not change it.
\<close>

theorem dispatch_unmarks_then_refreshes:
  "(\<exists>ts. trace_since s (fst (op_resume opn out s)) =
       map Toast ts @ [SetBusy (op_key opn) False, Call LoadGamesCall]) \<and>
   \<not> busy_at (fst (op_resume opn out s)) (op_key opn) \<and>
   gamesLoading (fst (op_resume opn out s)) \<and>
   refresh_count (fst (op_resume opn out s)) = refresh_count s + 1 \<and>
   refresh_count (op_start opn s) = refresh_count s"
proof -
  from op_resume_shape[of opn out s] obtain mid ts where
    eq: "fst (op_resume opn out s) = loadGames_start (markBusy (op_key opn) False mid)"
    and tr: "trace mid = trace s @ map Toast ts" by blast
  have full: "trace (fst (op_resume opn out s)) =
      trace s @ map Toast ts @ [SetBusy (op_key opn) False, Call LoadGamesCall]"
    by (simp add: eq tr)
  then have 1: "\<exists>ts. trace_since s (fst (op_resume opn out s)) =
       map Toast ts @ [SetBusy (op_key opn) False, Call LoadGamesCall]"
    using trace_since_append by blast
  have 2: "\<not> busy_at (fst (op_resume opn out s)) (op_key opn)"
    by (simp add: busy_at_def op_resume_busy)
  have 3: "gamesLoading (fst (op_resume opn out s))"
    by (simp add: eq loadGames_start_def emit_def)
  have 4: "refresh_count (fst (op_resume opn out s)) = refresh_count s + 1"
    by (simp add: refresh_count_def full)
  have 5: "refresh_count (op_start opn s) = refresh_count s"
    by (simp add: refresh_count_def trace_op_start split: operation.splits)
  show ?thesis using 1 2 3 4 5 by blast
qed

theorem dispatch_unmarks_then_refreshes_witness:
  "refresh_count loaded_state = 0 \<and>
   refresh_count (op_start (Install ''Alpha'') loaded_state) = 0 \<and>
   refresh_count (fst (op_resume (Install ''Alpha'') (Rejected None)
                         (op_start (Install ''Alpha'') loaded_state))) = 1 \<and>
   \<not> busy_at (fst (op_resume (Install ''Alpha'') (Rejected None)
                         (op_start (Install ''Alpha'') loaded_state))) ''install-Alpha''"
proof -
  let ?s1 = "op_start (Install ''Alpha'') loaded_state"
  have a: "refresh_count loaded_state = 0" by (simp add: refresh_count_def loaded_state_eq)
  from dispatch_unmarks_then_refreshes[of loaded_state "Install ''Alpha''" "Rejected None"] a
  have b: "refresh_count ?s1 = 0" by simp
  from dispatch_unmarks_then_refreshes[of ?s1 "Install ''Alpha''" "Rejected None"] b
  have c: "refresh_count (fst (op_resume (Install ''Alpha'') (Rejected None) ?s1)) = 1"
    and d: "\<not> busy_at (fst (op_resume (Install ''Alpha'') (Rejected None) ?s1)) ''install-Alpha''"
    by simp_all
  show ?thesis using a b c d by simp
qed


text \<open>
  Claim C9 (amended). The claim reads: every dispatched operation whose call resolves
  with a non-empty list of steps forwards the list as a second notification. Only
  \<open>handleInstall\<close> and \<open>handleRemove\<close> read \<open>result.steps\<close>. For a reply with a
  non-empty list of steps they issue two toasts, the message and then the steps joined
  with commas under the title \<open>Installation steps\<close> or \<open>Removal steps\<close>; the
  handlers for sync, sync-all, download and setup issue the message toast alone.
\<close>

theorem steps_forwarded_by_install_and_remove:
  assumes "steps result = Some ss" and "ss \<noteq> []"
  shows "toasts_of (trace_since s (fst (handleInstall_resume nm (Resolved result) s))) =
       [result_toast ''Installation complete'' result,
        \<lparr>title = ''Installation steps'', body = join ss, critical = False\<rparr>] \<and>
     toasts_of (trace_since s (fst (handleRemove_resume nm (Resolved result) s))) =
       [result_toast ''Game removed'' result,
        \<lparr>title = ''Removal steps'', body = join ss, critical = False\<rparr>] \<and>
     toasts_of (trace_since s (fst (handleSync_resume nm (Resolved result) s))) =
       [result_toast ''Saves synced'' result] \<and>
     toasts_of (trace_since s (fst (handleSyncAll_resume (Resolved result) s))) =
       [result_toast ''Saves synced for all games'' result] \<and>
     toasts_of (trace_since s (fst (handleDownload_resume nm (Resolved result) s))) =
       [result_toast ''Download complete'' result] \<and>
     toasts_of (trace_since s (fst (handleSetup_resume appid nm (Resolved result) s))) =
       [result_toast ''Prefix prepared'' result]"
  using assms
  by (simp add: handler_resume_defs trace_since_def callWithToaster_resume_def toast_steps_def
      result_toast_def)


theorem steps_forwarded_by_install_and_remove_witness:
  "steps sample_result = Some [''copy'', ''link''] \<and>
   toasts_of (trace_since loaded_state
       (fst (handleInstall_resume ''Alpha'' (Resolved sample_result) loaded_state))) =
     [\<lparr>title = ''Deckyfin'', body = ''done'', critical = False\<rparr>,
      \<lparr>title = ''Installation steps'', body = ''copy, link'', critical = False\<rparr>] \<and>
   toasts_of (trace_since loaded_state
       (fst (handleRemove_resume ''Alpha'' (Resolved sample_result) loaded_state))) =
     [\<lparr>title = ''Deckyfin'', body = ''done'', critical = False\<rparr>,
      \<lparr>title = ''Removal steps'', body = ''copy, link'', critical = False\<rparr>] \<and>
   toasts_of (trace_since loaded_state
       (fst (handleSync_resume ''Alpha'' (Resolved sample_result) loaded_state))) =
     [\<lparr>title = ''Deckyfin'', body = ''done'', critical = False\<rparr>]"
proof -
  have a: "steps sample_result = Some [''copy'', ''link'']" by (simp add: sample_result_def)
  have b: "[''copy'', ''link''] \<noteq> []" by simp
  have c: "result_toast d sample_result = \<lparr>title = ''Deckyfin'', body = ''done'', critical = False\<rparr>"
    for d by (simp add: result_toast_def sample_result_def)
  show ?thesis
    using a steps_forwarded_by_install_and_remove[OF a b, of loaded_state "''Alpha''" 0]
    by (simp add: c)
qed


text \<open>A save sync whose reply carries two steps issues one toast.\<close>

theorem sync_steps_not_forwarded:
  "steps sample_result = Some [''copy'', ''link''] \<and>
   toasts_of (trace_since loaded_state
       (fst (op_resume (Sync ''Alpha'') (Resolved sample_result) loaded_state))) =
     [\<lparr>title = ''Deckyfin'', body = ''done'', critical = False\<rparr>]"
  by (simp add: sample_result_def handleSync_resume_def callWithToaster_resume_def
      trace_since_def loaded_state_eq emit_def markBusy_def loadGames_start_def)


text \<open>
  Claim C10. In the second module the busy flag of a game's card is read from the keys
  \<open>download-<name>\<close>, \<open>setup-<appid>\<close> and \<open>sync-<name>\<close> and from the global
  gate, while \<open>handleInstall\<close> and \<open>handleRemove\<close> mark \<open>install-<name>\<close> and
  \<open>remove-<name>\<close>. The flag does not depend on what the map holds under these two
  keys, so starting an install or a removal, of this game or of any other, leaves the
  card's busy flag and the \<open>disabled\<close> state of its buttons as they were.
\<close>

theorem install_remove_leave_card_idle:
  "card_busy s g =
     (busy_at s (''download-'' @ name g) \<or> busy_at s (''setup-'' @ show_int (steam_appid g)) \<or>
      busy_at s (''sync-'' @ name g) \<or> gamesLoading s \<or> savingSettings s) \<and>
   busy_at (handleInstall_start nm s) (''install-'' @ nm) \<and>
   busy_at (handleRemove_start nm s) (''remove-'' @ nm) \<and>
   card_busy (markBusy (''install-'' @ nm) b s) g = card_busy s g \<and>
   card_busy (markBusy (''remove-'' @ nm) b s) g = card_busy s g \<and>
   card_busy (handleInstall_start nm s) g = card_busy s g \<and>
   card_busy (handleRemove_start nm s) g = card_busy s g \<and>
   card_controls Part000 g (card_busy (handleInstall_start nm s) g) =
     card_controls Part000 g (card_busy s g) \<and>
   card_controls Part000 g (card_busy (handleRemove_start nm s) g) =
     card_controls Part000 g (card_busy s g)"
proof -
  have i: "card_busy (markBusy (''install-'' @ nm) b s) g = card_busy s g" for b
    by (rule card_busy_unrelated_key) simp_all
  have r: "card_busy (markBusy (''remove-'' @ nm) b s) g = card_busy s g" for b
    by (rule card_busy_unrelated_key) simp_all
  have 1: "card_busy (handleInstall_start nm s) g = card_busy s g"
    using i[of True] by (simp add: handleInstall_start_def callWithToaster_start_def)
  have 2: "card_busy (handleRemove_start nm s) g = card_busy s g"
    using r[of True] by (simp add: handleRemove_start_def callWithToaster_start_def)
  have 3: "busy_at (handleInstall_start nm s) (''install-'' @ nm)"
    by (simp add: handleInstall_start_def busy_at_def callWithToaster_start_def busy_markBusy)
  have 4: "busy_at (handleRemove_start nm s) (''remove-'' @ nm)"
    by (simp add: handleRemove_start_def busy_at_def callWithToaster_start_def busy_markBusy)
  have 0: "card_busy s g =
     (busy_at s (''download-'' @ name g) \<or> busy_at s (''setup-'' @ show_int (steam_appid g)) \<or>
      busy_at s (''sync-'' @ name g) \<or> gamesLoading s \<or> savingSettings s)"
    by (simp add: card_busy_def disableActions_def)
  show ?thesis using 0 1 2 3 4 i r by simp
qed

theorem install_remove_leave_card_idle_witness:
  "card_busy loaded_state alpha = False \<and>
   busy_at (handleInstall_start ''Alpha'' loaded_state) ''install-Alpha'' \<and>
   card_busy (handleInstall_start ''Alpha'' loaded_state) alpha = False \<and>
   card_busy (handleRemove_start ''Alpha'' loaded_state) alpha = False \<and>
   card_controls Part000 alpha (card_busy (handleInstall_start ''Alpha'' loaded_state) alpha) =
     [(InstallButton, False)]"
proof -
  have a: "card_busy loaded_state alpha = False"
    by (simp add: card_busy_def busy_at_def disableActions_def loaded_state_eq get_prop_def)
  have b: "card_controls Part000 alpha False = [(InstallButton, False)]"
    by (simp add: card_controls_def alpha_def)
  show ?thesis
    using a b install_remove_leave_card_idle[of loaded_state alpha "''Alpha''"] by simp
qed



section \<open>Further properties\<close>

subsection \<open>The store along an execution\<close>

lemma val_below_mono: "val_below n w \<Longrightarrow> n \<le> m \<Longrightarrow> val_below m w"
  by (cases w) auto

lemma alloc_wf:
  "wf_heap h \<Longrightarrow>
     wf_heap (snd (alloc j h)) \<and> val_below (length (snd (alloc j h))) (fst (alloc j h)) \<and>
     length h \<le> length (snd (alloc j h))"
  "wf_heap h \<Longrightarrow> obj_below (length h) acc \<Longrightarrow>
     wf_heap (snd (alloc_props kvs acc h)) \<and>
     obj_below (length (snd (alloc_props kvs acc h))) (fst (alloc_props kvs acc h)) \<and>
     length h \<le> length (snd (alloc_props kvs acc h))"
proof (induction j h and kvs acc h rule: alloc_alloc_props.induct)
  case (1 p h)
  then show ?case by simp
next
  case (2 kvs h)
  have e: "obj_below (length h) []" by (simp add: obj_below_def)
  from 2(1)[OF 2(2) e] show ?case
    by (simp add: split_def Let_def wf_heap_snoc)
next
  case (3 acc h)
  then show ?case by simp
next
  case (4 k j kvs acc h)
  let ?w = "fst (alloc j h)" and ?h1 = "snd (alloc j h)"
  from 4(1)[OF 4(3)] have w1: "wf_heap ?h1" and vb: "val_below (length ?h1) ?w"
    and le: "length h \<le> length ?h1" by simp_all
  have ob: "obj_below (length ?h1) (set_prop k ?w acc)"
    using obj_below_set_prop[OF obj_below_mono[OF 4(4) le] vb] .
  from 4(2)[OF refl prod.collapse w1 ob] le show ?case
    by (simp add: split_def Let_def)
qed

lemma alloc_object_ok:
  assumes "wf_heap h"
  shows "wf_heap (snd (alloc_object kvs h)) \<and> fst (alloc_object kvs h) < length (snd (alloc_object kvs h)) \<and>
     length h \<le> length (snd (alloc_object kvs h))"
proof -
  have e: "obj_below (length h) []" by (simp add: obj_below_def)
  from alloc_wf(2)[OF assms e, of kvs] show ?thesis
    by (simp add: alloc_object_def split_def Let_def wf_heap_snoc)
qed

lemma draft_updater_ok:
  assumes wf: "wf_heap h" and r: "r < length h"
  shows "wf_heap (fst (draft_updater p v h (Some r))) \<and>
     length h < length (fst (draft_updater p v h (Some r))) \<and>
     snd (draft_updater p v h (Some r)) = Some (length h)"
proof -
  let ?h1 = "h @ [h ! r]"
  have w1: "wf_heap ?h1" using wf r by (simp add: wf_heap_snoc wf_heap_nth)
  have l1: "length h < length ?h1" by simp
  have "wf_heap (mutate_loop ?h1 (length h) p v)" by (rule wf_heap_mutate_loop[OF w1 l1])
  moreover have "length ?h1 \<le> length (mutate_loop ?h1 (length h) p v)"
    by (rule mutate_loop_length)
  ultimately show ?thesis using r by (simp add: draft_updater_def Let_def)
qed

lemma mutateDraft_ok: "state_ok s \<Longrightarrow> state_ok (mutateDraft p v s)"
proof (cases "settingsDraft s")
  case None
  assume "state_ok s"
  then show ?thesis using None by (simp add: state_ok_def mutateDraft_def draft_updater_def)
next
  case (Some r)
  assume ok: "state_ok s"
  then have wf: "wf_heap (store s)" and r: "r < length (store s)"
    using Some by (simp_all add: state_ok_def)
  from draft_updater_ok[OF wf r, of p v] ok Some show ?thesis
    by (auto simp: state_ok_def mutateDraft_def split_def Let_def)
qed

lemma store_emit [simp]: "store (emit e s) = store s" "settings (emit e s) = settings s"
  "settingsDraft (emit e s) = settingsDraft s"
  by (simp_all add: emit_def)

lemma state_ok_emit [simp]: "state_ok (emit e s) = state_ok s"
  by (simp add: state_ok_def)

lemma state_ok_markBusy [simp]: "state_ok (markBusy k b s) = state_ok s"
  by (simp add: state_ok_def markBusy_def)

lemma state_ok_loadGames_start [simp]: "state_ok (loadGames_start s) = state_ok s"
  by (simp add: state_ok_def loadGames_start_def)

lemma state_ok_loadGames_resume [simp]: "state_ok (loadGames_resume fe out s) = state_ok s"
  by (simp add: state_ok_def loadGames_resume_def split: outcome.splits)

lemma state_ok_persistSettings_start [simp]:
  "state_ok (fst (persistSettings_start s)) = state_ok s"
  by (simp add: state_ok_def persistSettings_start_def split: option.splits)

lemma state_ok_loadSettings_resume: "state_ok s \<Longrightarrow> state_ok (loadSettings_resume out s)"
proof (cases out)
  case (Resolved reply)
  assume "state_ok s"
  then have wf: "wf_heap (store s)" by (simp add: state_ok_def)
  from alloc_object_ok[OF wf, of reply] Resolved show ?thesis
    by (simp add: state_ok_def loadSettings_resume_def split_def Let_def)
next
  case (Rejected e)
  assume "state_ok s"
  then show ?thesis using Rejected by (simp add: state_ok_def loadSettings_resume_def)
qed

lemma state_ok_persistSettings_resume: "state_ok s \<Longrightarrow> state_ok (persistSettings_resume out s)"
proof (cases out)
  case (Resolved reply)
  assume "state_ok s"
  then have wf: "wf_heap (store s)" by (simp add: state_ok_def)
  from alloc_object_ok[OF wf, of reply] Resolved show ?thesis
    by (simp add: state_ok_def persistSettings_resume_def split_def Let_def)
next
  case (Rejected e)
  assume "state_ok s"
  then show ?thesis using Rejected by (simp add: state_ok_def persistSettings_resume_def Let_def)
qed

lemma state_ok_settings_effect [simp]: "state_ok (fst (settings_effect c)) = state_ok (fst c)"
  by (simp add: settings_effect_def split: option.splits)

lemma state_ok_op_start [simp]: "state_ok (op_start opn s) = state_ok s"
  by (cases opn) (simp_all add: handler_start_defs callWithToaster_start_def)

lemma state_ok_toast_steps [simp]: "state_ok (toast_steps t r s) = state_ok s"
  by (simp add: toast_steps_def split: outcome.splits option.splits)

lemma state_ok_callWithToaster [simp]:
  "state_ok (fst (callWithToaster_resume d out s)) = state_ok s"
  by (simp add: callWithToaster_resume_def split: outcome.splits)

lemma state_ok_op_resume [simp]: "state_ok (fst (op_resume opn out s)) = state_ok s"
  by (cases opn) (simp_all add: handler_resume_defs split_def Let_def)

lemma step_keeps_state_ok:
  assumes st: "step fe (s, ts) (s', ts')" and ok: "state_ok s"
  shows "state_ok s'"
  using st
proof (cases rule: step.cases)
  case (settings_loaded reply)
  then have "s' = fst (settings_effect (loadSettings_resume (Resolved reply) s,
      remove1 AwaitGetSettings ts))"
    by (simp add: prod_eq_iff)
  then show ?thesis using ok by (simp add: state_ok_loadSettings_resume)
next
  case (settings_saved reply)
  then have "s' = fst (settings_effect (persistSettings_resume (Resolved reply) s,
      remove1 AwaitSaveSettings ts))"
    by (simp add: prod_eq_iff)
  then show ?thesis using ok by (simp add: state_ok_persistSettings_resume)
qed (use ok in \<open>simp_all add: mutateDraft_ok state_ok_loadSettings_resume
       state_ok_persistSettings_resume\<close>)

lemma reachable_loaded_config: "reachable Part000 loaded_config"
proof -
  have "AwaitGetSettings \<in> set (snd mounted)" by (simp add: mounted_def)
  then have "step Part000 (fst mounted, snd mounted) loaded_config"
    unfolding loaded_config_def by (rule step.settings_loaded)
  then show ?thesis using reachable.after_step[OF reachable.at_mount] by simp
qed

lemma reachable_edited_config: "reachable Part000 edited_config"
proof -
  have "step Part000 (fst loaded_config, snd loaded_config) edited_config"
    unfolding edited_config_def by (rule step.edit)
  then show ?thesis using reachable.after_step[OF reachable_loaded_config] by simp
qed

lemma fst_loaded_config: "fst loaded_config = loadGames_start loaded_state"
  by (simp add: loaded_config_def settings_effect_def mounted_def loaded_state_def[symmetric]
      loaded_state_eq)

lemma draft_edited_config: "settingsDraft (fst edited_config) = Some 2"
  by (simp add: edited_config_def fst_loaded_config loaded_state_eq loadGames_start_def
      emit_def mutateDraft_def draft_updater_def get_prop_def)

text \<open>
  Property X1. In every reachable configuration the store is well formed and the persisted
  configuration and the draft, when set, are allocated objects: the hypothesis on the
  store under which \<open>mutateDraft\<close> was shown to change one leaf holds throughout.
\<close>

theorem reachable_store_well_formed:
  "reachable fe c \<Longrightarrow> state_ok (fst c)"
proof (induction rule: reachable.induct)
  case at_mount
  then show ?case
    by (simp add: mounted_def loadSettings_start_def state_ok_def init_state_def wf_heap_def)
next
  case (after_step c c')
  then show ?case using step_keeps_state_ok[of fe "fst c" "snd c" "fst c'" "snd c'"] by simp
qed

theorem reachable_store_well_formed_witness:
  "reachable Part000 edited_config \<and> wf_heap (store (fst edited_config)) \<and>
   settingsDraft (fst edited_config) = Some 2 \<and> 2 < length (store (fst edited_config))"
proof -
  from reachable_store_well_formed[OF reachable_edited_config]
  have 1: "wf_heap (store (fst edited_config))"
    and 2: "2 < length (store (fst edited_config))"
    using draft_edited_config by (simp_all add: state_ok_def)
  show ?thesis using reachable_edited_config 1 2 draft_edited_config by simp
qed

subsection \<open>Independent busy keys\<close>

lemma two_syncs_busy: "busyMap two_syncs = [(''sync-Alpha'', True), (''sync-Beta'', True)]"
  using busyMap_op_start[of "Sync ''Beta''" "op_start (Sync ''Alpha'') loaded_state"]
    busyMap_op_start[of "Sync ''Alpha''" loaded_state]
  by (simp add: two_syncs_def loaded_state_eq)

text \<open>
  Property X2. Starting or completing an operation touches the entry of its own key only: with
  save syncs of Alpha and of Beta in flight, the end of Alpha's leaves Beta's entry
  \<open>true\<close>.
\<close>

theorem completion_leaves_other_keys:
  "k \<noteq> op_key opn \<Longrightarrow>
   get_prop (busyMap (op_start opn s)) k = get_prop (busyMap s) k \<and>
   get_prop (busyMap (fst (op_resume opn out s))) k = get_prop (busyMap s) k"
  by (simp add: op_start_busy op_resume_busy)

theorem completion_leaves_other_keys_witness:
  "busy_at two_syncs ''sync-Alpha'' \<and> busy_at two_syncs ''sync-Beta'' \<and>
   busy_at (fst (op_resume (Sync ''Alpha'') (Rejected None) two_syncs)) ''sync-Beta'' \<and>
   \<not> busy_at (fst (op_resume (Sync ''Alpha'') (Rejected None) two_syncs)) ''sync-Alpha''"
proof -
  have a: "busy_at two_syncs ''sync-Alpha''" and b: "busy_at two_syncs ''sync-Beta''"
    by (simp_all add: busy_at_def two_syncs_busy get_prop_def)
  have ne: "''sync-Beta'' \<noteq> op_key (Sync ''Alpha'')" by simp
  from completion_leaves_other_keys[OF ne, of two_syncs "Rejected None"] b
  have c: "busy_at (fst (op_resume (Sync ''Alpha'') (Rejected None) two_syncs)) ''sync-Beta''"
    by (simp add: busy_at_def)
  have d: "\<not> busy_at (fst (op_resume (Sync ''Alpha'') (Rejected None) two_syncs)) ''sync-Alpha''"
    using op_resume_busy[of "Sync ''Alpha''" "Rejected None" two_syncs "''sync-Alpha''"]
    by (simp add: busy_at_def)
  show ?thesis using a b c d by simp
qed

subsection \<open>A successful save\<close>

lemma alloc_extends:
  "\<exists>xs. snd (alloc j h) = h @ xs"
  "\<exists>xs. snd (alloc_props kvs acc h) = h @ xs"
proof (induction j h and kvs acc h rule: alloc_alloc_props.induct)
  case (1 p h)
  then show ?case by simp
next
  case (2 kvs h)
  then obtain xs where "snd (alloc_props kvs [] h) = h @ xs" by blast
  then show ?case by (simp add: split_def Let_def)
next
  case (3 acc h)
  then show ?case by simp
next
  case (4 k j kvs acc h)
  from 4(1) obtain xs where 1: "snd (alloc j h) = h @ xs" by blast
  from 4(2)[OF refl prod.collapse] obtain ys where
    "snd (alloc_props kvs (set_prop k (fst (alloc j h)) acc) (snd (alloc j h))) =
       snd (alloc j h) @ ys" by blast
  then show ?case using 1 by (simp add: split_def Let_def)
qed

lemma alloc_object_extends: "take (length h) (snd (alloc_object kvs h)) = h"
proof -
  from alloc_extends(2)[of kvs "[]" h] obtain xs where "snd (alloc_props kvs [] h) = h @ xs"
    by blast
  then show ?thesis by (simp add: alloc_object_def split_def Let_def)
qed

text \<open>
  Property X3. When \<open>save_settings\<close> resolves, the persisted configuration and the draft both
  become the one object decoded from the reply, which is newly allocated; DirtyFlag and
  \<open>savingSettings\<close> are cleared, no object that existed before is written, and one
  toast, not critical, reports the save.
\<close>

theorem save_success_replaces_both:
  "settings (persistSettings_resume (Resolved reply) s) =
     Some (fst (alloc_object reply (store s))) \<and>
   settingsDraft (persistSettings_resume (Resolved reply) s) =
     settings (persistSettings_resume (Resolved reply) s) \<and>
   settingsDirty (persistSettings_resume (Resolved reply) s) = False \<and>
   savingSettings (persistSettings_resume (Resolved reply) s) = False \<and>
   take (length (store s)) (store (persistSettings_resume (Resolved reply) s)) = store s \<and>
   length (store s) \<le> fst (alloc_object reply (store s)) \<and>
   toasts_of (trace_since s (persistSettings_resume (Resolved reply) s)) =
     [\<lparr>title = ''Deckyfin'', body = ''Settings saved'', critical = False\<rparr>]"
proof -
  have "length (store s) \<le> fst (alloc_object reply (store s))"
  proof -
    from alloc_extends(2)[of reply "[]" "store s"] obtain xs
      where "snd (alloc_props reply [] (store s)) = store s @ xs" by blast
    then show ?thesis by (simp add: alloc_object_def split_def Let_def)
  qed
  then show ?thesis
    by (simp add: persistSettings_resume_def split_def Let_def trace_since_def emit_def
        alloc_object_extends)
qed


theorem save_success_replaces_both_witness:
  "settings (persistSettings_resume (Resolved sample_reply) saving_state) = Some 5 \<and>
   settingsDraft (persistSettings_resume (Resolved sample_reply) saving_state) = Some 5 \<and>
   settingsDirty (persistSettings_resume (Resolved sample_reply) saving_state) = False \<and>
   draft_lookup (persistSettings_resume (Resolved sample_reply) saving_state)
     [''proton'', ''defaultVersion''] = Some (Prim (PStr ''GE-1''))"
proof -
  have a: "alloc_object sample_reply (store saving_state) =
     (5, store saving_state @
       [[(''compatdataPath'', Prim (PStr ''/compat'')), (''defaultVersion'', Prim (PStr ''GE-1''))],
        [(''localGamesPath'', Prim (PStr ''/games'')), (''proton'', Ref 4),
         (''saveBackupPath'', Prim (PStr ''/backup''))]])"
    by (simp add: saving_state_eq edited_state_eq sample_reply_def alloc_object_def)
  note t = save_success_replaces_both[of sample_reply saving_state]
  from t a have 1: "settings (persistSettings_resume (Resolved sample_reply) saving_state) = Some 5"
    and 2: "settingsDraft (persistSettings_resume (Resolved sample_reply) saving_state) = Some 5"
    and 3: "settingsDirty (persistSettings_resume (Resolved sample_reply) saving_state) = False"
    by simp_all
  have 4: "draft_lookup (persistSettings_resume (Resolved sample_reply) saving_state)
     [''proton'', ''defaultVersion''] = Some (Prim (PStr ''GE-1''))"
    by (simp add: draft_lookup_def persistSettings_resume_def emit_def saving_state_eq
        edited_state_eq get_prop_def sample_reply_def alloc_object_def)
  show ?thesis using 1 2 3 4 by simp
qed


end
